theory Spec2Isabelle
  imports Main "HOL-Library.Word" "HOL-Library.Multiset"
begin

section \<open>Machine types, descriptor types, fatal outcomes\<close>

type_synonym uint8 = "8 word"
type_synonym uint32 = "32 word"
type_synonym uint64 = "64 word"

text \<open>The core range of \<^verbatim>\<open>VkDescriptorType\<close>
  (\<^verbatim>\<open>VULKAN_DESCRIPTOR_TYPE_BEGIN .. VULKAN_DESCRIPTOR_TYPE_END\<close>), in the order of
  the Vulkan enumeration.\<close>

datatype VkDescriptorType =
    VK_DESCRIPTOR_TYPE_SAMPLER
  | VK_DESCRIPTOR_TYPE_COMBINED_IMAGE_SAMPLER
  | VK_DESCRIPTOR_TYPE_SAMPLED_IMAGE
  | VK_DESCRIPTOR_TYPE_STORAGE_IMAGE
  | VK_DESCRIPTOR_TYPE_UNIFORM_TEXEL_BUFFER
  | VK_DESCRIPTOR_TYPE_STORAGE_TEXEL_BUFFER
  | VK_DESCRIPTOR_TYPE_UNIFORM_BUFFER
  | VK_DESCRIPTOR_TYPE_STORAGE_BUFFER
  | VK_DESCRIPTOR_TYPE_UNIFORM_BUFFER_DYNAMIC
  | VK_DESCRIPTOR_TYPE_STORAGE_BUFFER_DYNAMIC
  | VK_DESCRIPTOR_TYPE_INPUT_ATTACHMENT

text \<open>Modelled from the spec: the macros \<^verbatim>\<open>ASSERT\<close>, \<^verbatim>\<open>CRASH\<close> and
  \<^verbatim>\<open>VALIDATE_VULKAN_RESULT\<close> are defined outside this file. A violated assertion,
  \<^verbatim>\<open>CRASH\<close> and a native call whose result is not \<^verbatim>\<open>VK_SUCCESS\<close> each halt
  execution at once; so does the dereference of a null pointer.\<close>

datatype error = AssertionFailed | Crash | VulkanError | NullDereference

section \<open>DescriptorSetWriterVulkan::SetupDescriptorWrites\<close>

text \<open>One entry of \<^verbatim>\<open>SpirvShaderDescriptorInfo::DescriptorTypes\<close>; the function reads
  its descriptor type and its element count only. The metadata is the list of the first
  \<^verbatim>\<open>DescriptorTypesCount\<close> entries, in binding-declaration order.\<close>

record Descriptor =
  DescriptorType :: VkDescriptorType
  Count :: uint32

type_synonym SpirvShaderDescriptorInfo = "Descriptor list"

text \<open>The fields of \<^verbatim>\<open>VkWriteDescriptorSet\<close> that the function touches. A pointer into
  one of the three resource-info arrays is the element offset from the start of the
  caller's array; \<open>None\<close> is the null pointer.\<close>

record VkWriteDescriptorSet =
  sType :: uint32
  dstBinding :: uint32
  descriptorCount :: uint32
  descriptorType :: VkDescriptorType
  pImageInfo :: "nat option"
  pBufferInfo :: "nat option"
  pTexelBufferView :: "nat option"

definition VK_STRUCTURE_TYPE_WRITE_DESCRIPTOR_SET :: uint32 where
  "VK_STRUCTURE_TYPE_WRITE_DESCRIPTOR_SET = 35"

text \<open>The local state of the loop: the memory behind \<^verbatim>\<open>writeDescriptors\<close> and
  \<^verbatim>\<open>bindingToDynamicOffset\<close> (raw arrays, indexed from their base), the counter
  \<^verbatim>\<open>dynamicOffsetIndex\<close> and the three cursors.\<close>

record setup_state =
  writes :: "nat \<Rightarrow> VkWriteDescriptorSet"
  bindingToDynamicOffset :: "nat \<Rightarrow> uint8"
  dynamicOffsetIndex :: uint32
  imageInfo :: nat
  bufferInfo :: nat
  texelBufferView :: nat

text \<open>The three groups of \<^verbatim>\<open>case\<close> labels that share a body.\<close>

definition write_buffer :: "Descriptor \<Rightarrow> nat \<Rightarrow> VkWriteDescriptorSet \<Rightarrow> setup_state \<Rightarrow> setup_state" where
  "write_buffer d i w s =
     s\<lparr>writes := (writes s)(i := w\<lparr>pBufferInfo := Some (bufferInfo s)\<rparr>),
       bufferInfo := bufferInfo s + unat (Count d)\<rparr>"

definition write_image :: "Descriptor \<Rightarrow> nat \<Rightarrow> VkWriteDescriptorSet \<Rightarrow> setup_state \<Rightarrow> setup_state" where
  "write_image d i w s =
     s\<lparr>writes := (writes s)(i := w\<lparr>pImageInfo := Some (imageInfo s)\<rparr>),
       imageInfo := imageInfo s + unat (Count d)\<rparr>"

definition write_texel :: "Descriptor \<Rightarrow> nat \<Rightarrow> VkWriteDescriptorSet \<Rightarrow> setup_state \<Rightarrow> setup_state" where
  "write_texel d i w s =
     s\<lparr>writes := (writes s)(i := w\<lparr>pTexelBufferView := Some (texelBufferView s)\<rparr>),
       texelBufferView := texelBufferView s + unat (Count d)\<rparr>"

text \<open>The dynamic uniform buffer case: the slot is stored into a \<^verbatim>\<open>uint8\<close> array
  (a truncating conversion of the 32-bit counter), and the buffer cursor moves by one
  (\<^verbatim>\<open>bufferInfo++\<close>).\<close>

definition write_dynamic :: "nat \<Rightarrow> VkWriteDescriptorSet \<Rightarrow> setup_state \<Rightarrow> setup_state" where
  "write_dynamic i w s =
     s\<lparr>bindingToDynamicOffset := (bindingToDynamicOffset s)(i := ucast (dynamicOffsetIndex s)),
       dynamicOffsetIndex := dynamicOffsetIndex s + 1,
       writes := (writes s)(i := w\<lparr>pBufferInfo := Some (bufferInfo s)\<rparr>),
       bufferInfo := bufferInfo s + 1\<rparr>"

text \<open>One iteration of the loop, for binding \<open>i\<close>.\<close>

definition setup_step :: "Descriptor \<Rightarrow> nat \<Rightarrow> setup_state \<Rightarrow> error + setup_state" where
  "setup_step d i s =
     (let w = (writes s i)\<lparr>sType := VK_STRUCTURE_TYPE_WRITE_DESCRIPTOR_SET,
                            dstBinding := of_nat i, descriptorCount := Count d,
                            descriptorType := DescriptorType d\<rparr>
      in case DescriptorType d of
           VK_DESCRIPTOR_TYPE_UNIFORM_BUFFER_DYNAMIC \<Rightarrow> Inr (write_dynamic i w s)
         | VK_DESCRIPTOR_TYPE_UNIFORM_BUFFER \<Rightarrow> Inr (write_buffer d i w s)
         | VK_DESCRIPTOR_TYPE_STORAGE_BUFFER \<Rightarrow> Inr (write_buffer d i w s)
         | VK_DESCRIPTOR_TYPE_SAMPLER \<Rightarrow> Inr (write_image d i w s)
         | VK_DESCRIPTOR_TYPE_COMBINED_IMAGE_SAMPLER \<Rightarrow> Inr (write_image d i w s)
         | VK_DESCRIPTOR_TYPE_SAMPLED_IMAGE \<Rightarrow> Inr (write_image d i w s)
         | VK_DESCRIPTOR_TYPE_STORAGE_IMAGE \<Rightarrow> Inr (write_image d i w s)
         | VK_DESCRIPTOR_TYPE_STORAGE_TEXEL_BUFFER \<Rightarrow> Inr (write_texel d i w s)
         | VK_DESCRIPTOR_TYPE_UNIFORM_TEXEL_BUFFER \<Rightarrow> Inr (write_texel d i w s)
         | VK_DESCRIPTOR_TYPE_STORAGE_BUFFER_DYNAMIC \<Rightarrow> Inl Crash
         | VK_DESCRIPTOR_TYPE_INPUT_ATTACHMENT \<Rightarrow> Inl Crash)"

text \<open>The loop over the remaining bindings, the first of them being binding \<open>i\<close>.\<close>

fun setup_loop :: "Descriptor list \<Rightarrow> nat \<Rightarrow> setup_state \<Rightarrow> error + setup_state" where
  "setup_loop [] i s = Inr s"
| "setup_loop (d # ds) i s =
     (case setup_step d i s of
        Inl e \<Rightarrow> Inl e
      | Inr s' \<Rightarrow> setup_loop ds (Suc i) s')"

text \<open>The writer object after the call.\<close>

record DescriptorSetWriterVulkan =
  WriteDescriptors :: "nat \<Rightarrow> VkWriteDescriptorSet"
  WritesCount :: uint32
  BindingToDynamicOffset :: "nat \<Rightarrow> uint8"

text \<open>\<^verbatim>\<open>SetupDescriptorWrites\<close>. \<open>MaxDescriptors\<close> is the constant
  \<^verbatim>\<open>SpirvShaderDescriptorInfo::MaxDescriptors\<close>, declared in a header outside this
  file and taken as a parameter. The three cursor arguments are the offsets at which the
  caller's pointers stand in their arrays. The result is the returned slot count with the
  writer.\<close>

definition SetupDescriptorWrites ::
  "nat \<Rightarrow> SpirvShaderDescriptorInfo \<Rightarrow> (nat \<Rightarrow> VkWriteDescriptorSet) \<Rightarrow> nat \<Rightarrow> nat \<Rightarrow> nat
     \<Rightarrow> (nat \<Rightarrow> uint8) \<Rightarrow> error + (uint32 \<times> DescriptorSetWriterVulkan)" where
  "SetupDescriptorWrites MaxDescriptors info writeDescriptors imageInfo0 bufferInfo0
       texelBufferView0 bindingToDynamicOffset0 =
     (if \<not> length info \<le> MaxDescriptors then Inl AssertionFailed
      else
        case setup_loop info 0
               \<lparr>writes = writeDescriptors, bindingToDynamicOffset = bindingToDynamicOffset0,
                dynamicOffsetIndex = 0, imageInfo = imageInfo0, bufferInfo = bufferInfo0,
                texelBufferView = texelBufferView0\<rparr> of
          Inl e \<Rightarrow> Inl e
        | Inr s \<Rightarrow>
            Inr (dynamicOffsetIndex s,
                 \<lparr>WriteDescriptors = writes s, WritesCount = of_nat (length info),
                  BindingToDynamicOffset = bindingToDynamicOffset s\<rparr>))"

text \<open>The cursor a descriptor type is routed to by the \<^verbatim>\<open>switch\<close>; \<open>None\<close> for the
  types that reach \<^verbatim>\<open>default: CRASH\<close>.\<close>

datatype cursor = ImageInfoCursor | BufferInfoCursor | TexelBufferViewCursor

fun cursor_of :: "VkDescriptorType \<Rightarrow> cursor option" where
  "cursor_of VK_DESCRIPTOR_TYPE_UNIFORM_BUFFER_DYNAMIC = Some BufferInfoCursor"
| "cursor_of VK_DESCRIPTOR_TYPE_UNIFORM_BUFFER = Some BufferInfoCursor"
| "cursor_of VK_DESCRIPTOR_TYPE_STORAGE_BUFFER = Some BufferInfoCursor"
| "cursor_of VK_DESCRIPTOR_TYPE_SAMPLER = Some ImageInfoCursor"
| "cursor_of VK_DESCRIPTOR_TYPE_COMBINED_IMAGE_SAMPLER = Some ImageInfoCursor"
| "cursor_of VK_DESCRIPTOR_TYPE_SAMPLED_IMAGE = Some ImageInfoCursor"
| "cursor_of VK_DESCRIPTOR_TYPE_STORAGE_IMAGE = Some ImageInfoCursor"
| "cursor_of VK_DESCRIPTOR_TYPE_STORAGE_TEXEL_BUFFER = Some TexelBufferViewCursor"
| "cursor_of VK_DESCRIPTOR_TYPE_UNIFORM_TEXEL_BUFFER = Some TexelBufferViewCursor"
| "cursor_of VK_DESCRIPTOR_TYPE_STORAGE_BUFFER_DYNAMIC = None"
| "cursor_of VK_DESCRIPTOR_TYPE_INPUT_ATTACHMENT = None"

text \<open>How far a binding moves the cursor it is routed to: a dynamic uniform buffer moves
  the buffer cursor by one, every other handled type by its element count.\<close>

definition advance :: "Descriptor \<Rightarrow> nat" where
  "advance d =
     (if DescriptorType d = VK_DESCRIPTOR_TYPE_UNIFORM_BUFFER_DYNAMIC then 1 else unat (Count d))"

text \<open>The distance a cursor has moved after the bindings \<open>ds\<close>.\<close>

definition cursor_offset :: "cursor \<Rightarrow> Descriptor list \<Rightarrow> nat" where
  "cursor_offset c ds =
     sum_list (map advance (filter (\<lambda>d. cursor_of (DescriptorType d) = Some c) ds))"

text \<open>The sum of the element counts of the bindings of \<open>ds\<close> routed to cursor \<open>c\<close>.\<close>

definition element_count_sum :: "cursor \<Rightarrow> Descriptor list \<Rightarrow> nat" where
  "element_count_sum c ds =
     sum_list (map (\<lambda>d. unat (Count d)) (filter (\<lambda>d. cursor_of (DescriptorType d) = Some c) ds))"

text \<open>The descriptor types that take a dynamic offset at bind time.\<close>

definition is_dynamic :: "Descriptor \<Rightarrow> bool" where
  "is_dynamic d \<longleftrightarrow>
     DescriptorType d = VK_DESCRIPTOR_TYPE_UNIFORM_BUFFER_DYNAMIC
     \<or> DescriptorType d = VK_DESCRIPTOR_TYPE_STORAGE_BUFFER_DYNAMIC"

fun cursor_pos :: "cursor \<Rightarrow> setup_state \<Rightarrow> nat" where
  "cursor_pos ImageInfoCursor s = imageInfo s"
| "cursor_pos BufferInfoCursor s = bufferInfo s"
| "cursor_pos TexelBufferViewCursor s = texelBufferView s"

fun pointer_of :: "cursor \<Rightarrow> VkWriteDescriptorSet \<Rightarrow> nat option" where
  "pointer_of ImageInfoCursor w = pImageInfo w"
| "pointer_of BufferInfoCursor w = pBufferInfo w"
| "pointer_of TexelBufferViewCursor w = pTexelBufferView w"

definition cursor_start :: "cursor \<Rightarrow> nat \<Rightarrow> nat \<Rightarrow> nat \<Rightarrow> nat" where
  "cursor_start c imageInfo0 bufferInfo0 texelBufferView0 =
     (case c of ImageInfoCursor \<Rightarrow> imageInfo0 | BufferInfoCursor \<Rightarrow> bufferInfo0
      | TexelBufferViewCursor \<Rightarrow> texelBufferView0)"

text \<open>Concrete inputs: zeroed caller arrays, a shape with dynamic uniform buffers at
  positions 1, 3 and 4, a shape whose dynamic uniform buffer has two elements, a shape
  with a dynamic storage buffer, and a shape of 257 dynamic uniform buffers.\<close>

definition zero_write :: VkWriteDescriptorSet where
  "zero_write = \<lparr>sType = 0, dstBinding = 0, descriptorCount = 0, descriptorType = VK_DESCRIPTOR_TYPE_SAMPLER,
     pImageInfo = None, pBufferInfo = None, pTexelBufferView = None\<rparr>"

definition zero_writes :: "nat \<Rightarrow> VkWriteDescriptorSet" where
  "zero_writes = (\<lambda>_. zero_write)"

definition zero_bytes :: "nat \<Rightarrow> uint8" where
  "zero_bytes = (\<lambda>_. 0)"

definition example_info :: SpirvShaderDescriptorInfo where
  "example_info =
     [\<lparr>DescriptorType = VK_DESCRIPTOR_TYPE_SAMPLED_IMAGE, Count = 1\<rparr>,
      \<lparr>DescriptorType = VK_DESCRIPTOR_TYPE_UNIFORM_BUFFER_DYNAMIC, Count = 1\<rparr>,
      \<lparr>DescriptorType = VK_DESCRIPTOR_TYPE_STORAGE_BUFFER, Count = 4\<rparr>,
      \<lparr>DescriptorType = VK_DESCRIPTOR_TYPE_UNIFORM_BUFFER_DYNAMIC, Count = 1\<rparr>,
      \<lparr>DescriptorType = VK_DESCRIPTOR_TYPE_UNIFORM_BUFFER_DYNAMIC, Count = 1\<rparr>]"

definition dynamic_array_info :: SpirvShaderDescriptorInfo where
  "dynamic_array_info =
     [\<lparr>DescriptorType = VK_DESCRIPTOR_TYPE_UNIFORM_BUFFER_DYNAMIC, Count = 2\<rparr>,
      \<lparr>DescriptorType = VK_DESCRIPTOR_TYPE_UNIFORM_BUFFER, Count = 1\<rparr>]"

definition storage_dynamic_info :: SpirvShaderDescriptorInfo where
  "storage_dynamic_info =
     [\<lparr>DescriptorType = VK_DESCRIPTOR_TYPE_UNIFORM_BUFFER, Count = 1\<rparr>,
      \<lparr>DescriptorType = VK_DESCRIPTOR_TYPE_STORAGE_BUFFER_DYNAMIC, Count = 1\<rparr>]"

definition many_dynamic_info :: SpirvShaderDescriptorInfo where
  "many_dynamic_info =
     replicate 257 \<lparr>DescriptorType = VK_DESCRIPTOR_TYPE_UNIFORM_BUFFER_DYNAMIC, Count = 1\<rparr>"

section \<open>Layout signatures: DescriptorSetLayoutInfoVulkan and DescriptorSetLayoutVulkan\<close>

type_synonym VkDescriptorSetLayout = uint64

text \<open>A layout binding is only handed on to the native layer by the functions below.\<close>

record VkDescriptorSetLayoutBinding =
  binding :: uint32
  bindingDescriptorType :: VkDescriptorType
  bindingDescriptorCount :: uint32
  stageFlags :: uint32

record SetLayout =
  LayoutBindings :: "VkDescriptorSetLayoutBinding list"

text \<open>\<^verbatim>\<open>_layoutTypes\<close> is an array indexed by descriptor type: the per-type histogram.\<close>

record DescriptorSetLayoutInfoVulkan =
  layoutTypes :: "VkDescriptorType \<Rightarrow> uint32"
  setLayouts :: "SetLayout list"
  hash :: uint32
  typesUsageID :: uint32

record VkDescriptorSetAllocateInfo =
  descriptorSetCount :: uint32
  pSetLayouts :: "VkDescriptorSetLayout list"

record DescriptorSetLayoutVulkan = DescriptorSetLayoutInfoVulkan +
  handles :: "VkDescriptorSetLayout list"
  allocateInfo :: VkDescriptorSetAllocateInfo

subsection \<open>CacheTypesUsageID\<close>

text \<open>The function's static locals \<^verbatim>\<open>uniqueID\<close> and \<^verbatim>\<open>typesUsageHashMap\<close>: the
  process-wide cache. At program start \<^verbatim>\<open>uniqueID\<close> is 1 and the dictionary is empty.\<close>

record usage_cache =
  uniqueID :: uint32
  typesUsageHashMap :: "uint32 \<rightharpoonup> uint32"

definition initial_usage_cache :: usage_cache where
  "initial_usage_cache = \<lparr>uniqueID = 1, typesUsageHashMap = Map.empty\<rparr>"

text \<open>\<^verbatim>\<open>CacheTypesUsageID\<close>, under its lock. \<open>MemCrc32\<close> stands for
  \<^verbatim>\<open>Crc::MemCrc32\<close> applied to the bytes of \<^verbatim>\<open>_layoutTypes\<close>; the checksum lives in
  another file and is taken as a parameter, a function of the array's content.\<close>

definition CacheTypesUsageID ::
  "((VkDescriptorType \<Rightarrow> uint32) \<Rightarrow> uint32) \<Rightarrow> 'a DescriptorSetLayoutInfoVulkan_scheme
     \<Rightarrow> usage_cache \<Rightarrow> 'a DescriptorSetLayoutInfoVulkan_scheme \<times> usage_cache" where
  "CacheTypesUsageID MemCrc32 l c =
     (let typesUsageHash = MemCrc32 (layoutTypes l) in
      case typesUsageHashMap c typesUsageHash of
        Some usageId \<Rightarrow> (l\<lparr>typesUsageID := usageId\<rparr>, c)
      | None \<Rightarrow>
          (l\<lparr>typesUsageID := uniqueID c\<rparr>,
           c\<lparr>uniqueID := uniqueID c + 1,
             typesUsageHashMap := (typesUsageHashMap c)(typesUsageHash \<mapsto> uniqueID c)\<rparr>))"

text \<open>Any number of calls, in the order of the list, against the one cache.\<close>

fun CacheTypesUsageID_calls ::
  "((VkDescriptorType \<Rightarrow> uint32) \<Rightarrow> uint32) \<Rightarrow> 'a DescriptorSetLayoutInfoVulkan_scheme list
     \<Rightarrow> usage_cache \<Rightarrow> 'a DescriptorSetLayoutInfoVulkan_scheme list \<times> usage_cache" where
  "CacheTypesUsageID_calls MemCrc32 [] c = ([], c)"
| "CacheTypesUsageID_calls MemCrc32 (l # ls) c =
     (case CacheTypesUsageID MemCrc32 l c of
        (l', c') \<Rightarrow>
          (case CacheTypesUsageID_calls MemCrc32 ls c' of
             (ls', c'') \<Rightarrow> (l' # ls', c'')))"

subsection \<open>Compile\<close>










datatype VkResult = VK_SUCCESS | VK_ERROR_OUT_OF_HOST_MEMORY | VK_ERROR_OUT_OF_DEVICE_MEMORY




text \<open>Concrete inputs: a checksum, a native layer that numbers the objects it creates, a
  device whose seven limits are all 16, and layouts with two set layouts whose histograms
  hold 16 and 15 samplers, or 3 samplers and 2 uniform buffers.\<close>

definition example_crc :: "(VkDescriptorType \<Rightarrow> uint32) \<Rightarrow> uint32" where
  "example_crc T = T VK_DESCRIPTOR_TYPE_SAMPLER + 31 * T VK_DESCRIPTOR_TYPE_UNIFORM_BUFFER"



definition samplers_only :: "uint32 \<Rightarrow> VkDescriptorType \<Rightarrow> uint32" where
  "samplers_only n t = (if t = VK_DESCRIPTOR_TYPE_SAMPLER then n else 0)"

definition samplers_and_buffers :: "VkDescriptorType \<Rightarrow> uint32" where
  "samplers_and_buffers t =
     (if t = VK_DESCRIPTOR_TYPE_SAMPLER then 3
      else if t = VK_DESCRIPTOR_TYPE_UNIFORM_BUFFER then 2 else 0)"

definition example_layout :: "(VkDescriptorType \<Rightarrow> uint32) \<Rightarrow> DescriptorSetLayoutVulkan" where
  "example_layout T =
     \<lparr>layoutTypes = T,
      setLayouts = [\<lparr>LayoutBindings = []\<rparr>, \<lparr>LayoutBindings = []\<rparr>],
      hash = 0, typesUsageID = - 1, handles = [],
      allocateInfo = \<lparr>descriptorSetCount = 0, pSetLayouts = []\<rparr>\<rparr>"

definition buffers_and_samplers :: "VkDescriptorType \<Rightarrow> uint32" where
  "buffers_and_samplers t =
     (if t = VK_DESCRIPTOR_TYPE_UNIFORM_BUFFER then 2
      else if t = VK_DESCRIPTOR_TYPE_SAMPLER then 3 else 0)"

definition example_layouts :: "DescriptorSetLayoutVulkan list" where
  "example_layouts =
     [example_layout samplers_and_buffers, example_layout (samplers_only 16),
      (example_layout buffers_and_samplers)\<lparr>setLayouts := [], hash := 77\<rparr>]"

section \<open>Descriptor pools: DescriptorPoolVulkan and TypedDescriptorPoolSetVulkan\<close>

text \<open>The native pool behind a non-null \<^verbatim>\<open>VkDescriptorPool\<close> handle, as far as this code
  observes it. All requests that reach one pool are for the same layout, so the pool's
  capacity is counted in allocation requests: \<^verbatim>\<open>vkAllocateDescriptorSets\<close> succeeds
  while fewer than \<open>vk_capacity\<close> requests were served since the pool was created or
  last reset, and \<^verbatim>\<open>vkResetDescriptorPool\<close> returns everything to the pool.\<close>

record VkDescriptorPool =
  vk_capacity :: nat
  vk_allocated :: nat

definition vkAllocateDescriptorSets :: "VkDescriptorPool \<Rightarrow> bool \<times> VkDescriptorPool" where
  "vkAllocateDescriptorSets p =
     (if vk_allocated p < vk_capacity p then (True, p\<lparr>vk_allocated := Suc (vk_allocated p)\<rparr>)
      else (False, p))"

definition vkResetDescriptorPool :: "VkDescriptorPool \<Rightarrow> VkDescriptorPool" where
  "vkResetDescriptorPool p = p\<lparr>vk_allocated := 0\<rparr>"

text \<open>\<^verbatim>\<open>DescriptorPoolVulkan\<close>: the handle (\<open>None\<close> is \<^verbatim>\<open>VK_NULL_HANDLE\<close>) and the
  two counters. \<^verbatim>\<open>_descriptorSetsMax\<close> is written by the constructor and read by no
  function of this file.\<close>

record DescriptorPoolVulkan =
  handle :: "VkDescriptorPool option"
  allocatedDescriptorSetsCount :: uint32
  allocatedDescriptorSetsCountMax :: uint32

text \<open>The constructor, where the native pool is created (a creation that fails halts the
  process); \<open>capacity\<close> is the number of requests that the native pool created from
  the constructor's \<^verbatim>\<open>createInfo\<close> serves.\<close>

definition DescriptorPoolVulkan_new :: "nat \<Rightarrow> DescriptorPoolVulkan" where
  "DescriptorPoolVulkan_new capacity =
     \<lparr>handle = Some \<lparr>vk_capacity = capacity, vk_allocated = 0\<rparr>,
      allocatedDescriptorSetsCount = 0, allocatedDescriptorSetsCountMax = 0\<rparr>"

definition DescriptorPoolVulkan_Reset :: "DescriptorPoolVulkan \<Rightarrow> DescriptorPoolVulkan" where
  "DescriptorPoolVulkan_Reset p =
     p\<lparr>handle := (case handle p of None \<Rightarrow> None | Some h \<Rightarrow> Some (vkResetDescriptorPool h)),
       allocatedDescriptorSetsCount := 0\<rparr>"

text \<open>\<^verbatim>\<open>DescriptorPoolVulkan::AllocateDescriptorSets\<close>; the native call on a null handle
  does not give \<^verbatim>\<open>VK_SUCCESS\<close>.\<close>

definition DescriptorPoolVulkan_AllocateDescriptorSets ::
  "DescriptorPoolVulkan \<Rightarrow> bool \<times> DescriptorPoolVulkan" where
  "DescriptorPoolVulkan_AllocateDescriptorSets p =
     (case handle p of
        None \<Rightarrow> (False, p)
      | Some h \<Rightarrow> (case vkAllocateDescriptorSets h of (ok, h') \<Rightarrow> (ok, p\<lparr>handle := Some h'\<rparr>)))"

text \<open>\<^verbatim>\<open>TypedDescriptorPoolSetVulkan\<close>: the linked list of pools from
  \<^verbatim>\<open>_poolListHead\<close> along \<^verbatim>\<open>Next\<close>, and \<^verbatim>\<open>_poolListCurrent\<close> as the index of its
  node (\<open>None\<close> is the null pointer; the head is null when the list is empty).\<close>

record TypedDescriptorPoolSetVulkan =
  poolList :: "DescriptorPoolVulkan list"
  poolListCurrent :: "nat option"

text \<open>\<^verbatim>\<open>PushNewPool\<close>: the new node becomes the successor of the current node (whatever
  followed it is unlinked) and the current node; the returned pool is the element of the
  new current node.\<close>

definition PushNewPool :: "nat \<Rightarrow> TypedDescriptorPoolSetVulkan \<Rightarrow> TypedDescriptorPoolSetVulkan" where
  "PushNewPool capacity s =
     (case poolListCurrent s of
        Some i \<Rightarrow>
          s\<lparr>poolList := take (Suc i) (poolList s) @ [DescriptorPoolVulkan_new capacity],
            poolListCurrent := Some (Suc i)\<rparr>
      | None \<Rightarrow>
          s\<lparr>poolList := [DescriptorPoolVulkan_new capacity], poolListCurrent := Some 0\<rparr>)"

text \<open>\<^verbatim>\<open>GetFreePool\<close>: in every branch the returned pool is the element of the current
  node of the state it leaves.\<close>

definition GetFreePool ::
  "nat \<Rightarrow> bool \<Rightarrow> TypedDescriptorPoolSetVulkan \<Rightarrow> error + TypedDescriptorPoolSetVulkan" where
  "GetFreePool capacity forceNewPool s =
     (case poolListCurrent s of
        None \<Rightarrow> Inl NullDereference
      | Some i \<Rightarrow>
          if \<not> forceNewPool then Inr s
          else if Suc i < length (poolList s) then Inr (s\<lparr>poolListCurrent := Some (Suc i)\<rparr>)
          else Inr (PushNewPool capacity s))"

text \<open>The \<^verbatim>\<open>while\<close> loop of \<^verbatim>\<open>AllocateDescriptorSets\<close>, with \<^verbatim>\<open>pool\<close> the element of
  the current node. The loop has no bound of its own: where it runs forever the value is
  \<open>None\<close>.\<close>

partial_function (option) allocate_loop ::
  "nat \<Rightarrow> TypedDescriptorPoolSetVulkan \<Rightarrow> (error + TypedDescriptorPoolSetVulkan) option" where
  "allocate_loop capacity s =
     (case poolListCurrent s of
        None \<Rightarrow> Some (Inl NullDereference)
      | Some i \<Rightarrow>
          if \<not> i < length (poolList s) then Some (Inl NullDereference)
          else if fst (DescriptorPoolVulkan_AllocateDescriptorSets (poolList s ! i))
          then Some (Inr (s\<lparr>poolList :=
                  (poolList s)[i := snd (DescriptorPoolVulkan_AllocateDescriptorSets (poolList s ! i))]\<rparr>))
          else (case GetFreePool capacity True s of
                  Inl e \<Rightarrow> Some (Inl e)
                | Inr s' \<Rightarrow> allocate_loop capacity s'))"

definition TypedDescriptorPoolSetVulkan_AllocateDescriptorSets ::
  "nat \<Rightarrow> DescriptorSetLayoutVulkan \<Rightarrow> TypedDescriptorPoolSetVulkan
     \<Rightarrow> (error + bool \<times> TypedDescriptorPoolSetVulkan) option" where
  "TypedDescriptorPoolSetVulkan_AllocateDescriptorSets capacity layout s =
     (if handles layout \<noteq> [] then
        (case allocate_loop capacity s of
           None \<Rightarrow> None
         | Some (Inl e) \<Rightarrow> Some (Inl e)
         | Some (Inr s') \<Rightarrow> Some (Inr (True, s')))
      else Some (Inr (True, s)))"

definition TypedDescriptorPoolSetVulkan_Reset ::
  "TypedDescriptorPoolSetVulkan \<Rightarrow> TypedDescriptorPoolSetVulkan" where
  "TypedDescriptorPoolSetVulkan_Reset s =
     s\<lparr>poolList := map DescriptorPoolVulkan_Reset (poolList s),
       poolListCurrent := (if poolList s = [] then None else Some 0)\<rparr>"

text \<open>A run of \<open>n\<close> allocations for one layout.\<close>

fun allocations ::
  "nat \<Rightarrow> DescriptorSetLayoutVulkan \<Rightarrow> nat \<Rightarrow> TypedDescriptorPoolSetVulkan
     \<Rightarrow> (error + TypedDescriptorPoolSetVulkan) option" where
  "allocations capacity layout 0 s = Some (Inr s)"
| "allocations capacity layout (Suc n) s =
     (case TypedDescriptorPoolSetVulkan_AllocateDescriptorSets capacity layout s of
        None \<Rightarrow> None
      | Some (Inl e) \<Rightarrow> Some (Inl e)
      | Some (Inr (ok, s')) \<Rightarrow> allocations capacity layout n s')"

text \<open>A concrete chain: two pools of capacity 2, the first full and the second in use.\<close>

definition used_chain :: TypedDescriptorPoolSetVulkan where
  "used_chain =
     \<lparr>poolList =
        [\<lparr>handle = Some \<lparr>vk_capacity = 2, vk_allocated = 2\<rparr>,
          allocatedDescriptorSetsCount = 2, allocatedDescriptorSetsCountMax = 2\<rparr>,
         \<lparr>handle = Some \<lparr>vk_capacity = 2, vk_allocated = 1\<rparr>,
          allocatedDescriptorSetsCount = 1, allocatedDescriptorSetsCountMax = 1\<rparr>],
      poolListCurrent = Some 1\<rparr>"

definition one_set_layout :: DescriptorSetLayoutVulkan where
  "one_set_layout =
     \<lparr>layoutTypes = samplers_only 1, setLayouts = [\<lparr>LayoutBindings = []\<rparr>],
      hash = 0, typesUsageID = 1, handles = [1],
      allocateInfo = \<lparr>descriptorSetCount = 1, pSetLayouts = [1]\<rparr>\<rparr>"

section \<open>Registries: DescriptorPoolSetContainerVulkan and DescriptorPoolsManagerVulkan\<close>

text \<open>\<^verbatim>\<open>DescriptorPoolSetContainerVulkan\<close>: the dictionary of typed pool sets (each owned by
  the container), the frame stamp and the flag. Frame numbers are 64-bit unsigned, as
  \<^verbatim>\<open>Engine::FrameCount\<close> is.\<close>

record DescriptorPoolSetContainerVulkan =
  typedDescriptorPools :: "uint32 \<rightharpoonup> TypedDescriptorPoolSetVulkan"
  lastFrameUsed :: uint64
  used :: bool

text \<open>The constructor; \<open>FrameCount\<close> is the value of \<^verbatim>\<open>Engine::FrameCount\<close> when it
  runs.\<close>

definition DescriptorPoolSetContainerVulkan_new :: "uint64 \<Rightarrow> DescriptorPoolSetContainerVulkan" where
  "DescriptorPoolSetContainerVulkan_new FrameCount =
     \<lparr>typedDescriptorPools = Map.empty, lastFrameUsed = FrameCount, used = True\<rparr>"

definition DescriptorPoolSetContainerVulkan_Reset ::
  "DescriptorPoolSetContainerVulkan \<Rightarrow> DescriptorPoolSetContainerVulkan" where
  "DescriptorPoolSetContainerVulkan_Reset c =
     c\<lparr>typedDescriptorPools :=
         (\<lambda>key. case typedDescriptorPools c key of
                  None \<Rightarrow> None
                | Some typedPool \<Rightarrow> Some (TypedDescriptorPoolSetVulkan_Reset typedPool))\<rparr>"

definition SetUsed :: "uint64 \<Rightarrow> bool \<Rightarrow> DescriptorPoolSetContainerVulkan \<Rightarrow> DescriptorPoolSetContainerVulkan" where
  "SetUsed FrameCount u c =
     c\<lparr>used := u, lastFrameUsed := (if u then FrameCount else lastFrameUsed c)\<rparr>"

text \<open>Modelled from the spec: the accessors \<^verbatim>\<open>IsUnused\<close> and \<^verbatim>\<open>GetLastFrameUsed\<close> are
  declared in the header, which is not among the sources. A registry is either in use
  or free, and the stamp read by the collector is the recorded one.\<close>

definition IsUnused :: "DescriptorPoolSetContainerVulkan \<Rightarrow> bool" where
  "IsUnused c \<longleftrightarrow> \<not> used c"

definition GetLastFrameUsed :: "DescriptorPoolSetContainerVulkan \<Rightarrow> uint64" where
  "GetLastFrameUsed c = lastFrameUsed c"

text \<open>\<^verbatim>\<open>DescriptorPoolsManagerVulkan\<close>: the array \<^verbatim>\<open>_poolSets\<close> of owning pointers. Each
  slot is shown as the address of the registry together with the registry it points to;
  the address is what a caller holds as its lease.\<close>

type_synonym ptr = nat

type_synonym registry = "ptr \<times> DescriptorPoolSetContainerVulkan"

record DescriptorPoolsManagerVulkan =
  poolSets :: "registry list"

definition DescriptorPoolsManagerVulkan_new :: DescriptorPoolsManagerVulkan where
  "DescriptorPoolsManagerVulkan_new = \<lparr>poolSets = []\<rparr>"

text \<open>The \<^verbatim>\<open>for\<close> loop of \<^verbatim>\<open>AcquirePoolSetContainer\<close>: the first unused registry is
  marked used, reset and returned.\<close>

fun acquire_scan :: "uint64 \<Rightarrow> registry list \<Rightarrow> (ptr \<times> registry list) option" where
  "acquire_scan FrameCount [] = None"
| "acquire_scan FrameCount ((p, c) # ps) =
     (if IsUnused c
      then Some (p, (p, DescriptorPoolSetContainerVulkan_Reset (SetUsed FrameCount True c)) # ps)
      else (case acquire_scan FrameCount ps of
              None \<Rightarrow> None
            | Some (q, ps') \<Rightarrow> Some (q, (p, c) # ps')))"

text \<open>\<^verbatim>\<open>AcquirePoolSetContainer\<close>, under the lock. \<open>newPtr\<close> is the address that
  \<^verbatim>\<open>New\<close> gives to the registry it allocates, should the call allocate one.\<close>

definition AcquirePoolSetContainer ::
  "uint64 \<Rightarrow> ptr \<Rightarrow> DescriptorPoolsManagerVulkan \<Rightarrow> ptr \<times> DescriptorPoolsManagerVulkan" where
  "AcquirePoolSetContainer FrameCount newPtr m =
     (case acquire_scan FrameCount (poolSets m) of
        Some (p, ps') \<Rightarrow> (p, m\<lparr>poolSets := ps'\<rparr>)
      | None \<Rightarrow>
          (newPtr,
           m\<lparr>poolSets := poolSets m @ [(newPtr, DescriptorPoolSetContainerVulkan_new FrameCount)]\<rparr>))"

text \<open>\<^verbatim>\<open>ReleasePoolSet\<close>: \<^verbatim>\<open>SetUsed(false)\<close> on the registry at the given address.\<close>

definition ReleasePoolSet ::
  "uint64 \<Rightarrow> ptr \<Rightarrow> DescriptorPoolsManagerVulkan \<Rightarrow> DescriptorPoolsManagerVulkan" where
  "ReleasePoolSet FrameCount p m =
     m\<lparr>poolSets := map (\<lambda>(q, c). if q = p then (q, SetUsed FrameCount False c) else (q, c)) (poolSets m)\<rparr>"

text \<open>The condition under which \<^verbatim>\<open>GC\<close> destroys a registry; the subtraction is the
  unsigned 64-bit one, and \<open>safeFrames\<close> is the constant
  \<^verbatim>\<open>VULKAN_RESOURCE_DELETE_SAFE_FRAMES_COUNT\<close> of the configuration header.\<close>

definition gc_eligible :: "uint64 \<Rightarrow> uint64 \<Rightarrow> DescriptorPoolSetContainerVulkan \<Rightarrow> bool" where
  "gc_eligible FrameCount safeFrames c \<longleftrightarrow>
     IsUnused c \<and> FrameCount - GetLastFrameUsed c > safeFrames"

text \<open>The loop of \<^verbatim>\<open>GC\<close>, entered with \<open>n = i + 1\<close> for the loop variable \<open>i\<close>,
  which runs from the last index down to 0 and stops at the first registry it destroys.
  \<^verbatim>\<open>Array::RemoveAt\<close> belongs to the engine's collection header and is a parameter.\<close>

fun GC_scan ::
  "(nat \<Rightarrow> registry list \<Rightarrow> registry list) \<Rightarrow> uint64 \<Rightarrow> uint64 \<Rightarrow> nat \<Rightarrow> registry list
     \<Rightarrow> registry list" where
  "GC_scan RemoveAt FrameCount safeFrames 0 ps = ps"
| "GC_scan RemoveAt FrameCount safeFrames (Suc i) ps =
     (if gc_eligible FrameCount safeFrames (snd (ps ! i)) then RemoveAt i ps
      else GC_scan RemoveAt FrameCount safeFrames i ps)"

definition GC ::
  "(nat \<Rightarrow> registry list \<Rightarrow> registry list) \<Rightarrow> uint64 \<Rightarrow> uint64 \<Rightarrow> DescriptorPoolsManagerVulkan
     \<Rightarrow> DescriptorPoolsManagerVulkan" where
  "GC RemoveAt FrameCount safeFrames m =
     m\<lparr>poolSets := GC_scan RemoveAt FrameCount safeFrames (length (poolSets m)) (poolSets m)\<rparr>"

text \<open>Two ways to remove the element at an index: closing the gap, or moving the last
  element into it.\<close>

definition RemoveAtKeepOrder :: "nat \<Rightarrow> 'a list \<Rightarrow> 'a list" where
  "RemoveAtKeepOrder i xs = take i xs @ drop (Suc i) xs"

definition RemoveAtSwap :: "nat \<Rightarrow> 'a list \<Rightarrow> 'a list" where
  "RemoveAtSwap i xs = butlast (xs[i := last xs])"

subsection \<open>Interleavings of Acquire and Release\<close>

text \<open>A call of a client, with the value of \<^verbatim>\<open>Engine::FrameCount\<close> at the call. An
  \<open>Acquire\<close> also carries the address that the allocator would hand out.\<close>

datatype call = Acquire uint64 ptr | Release uint64 ptr

text \<open>The manager together with the outstanding leases: the addresses handed out by
  \<open>Acquire\<close> and not released since, most recent first.\<close>

record clients =
  manager :: DescriptorPoolsManagerVulkan
  leases :: "ptr list"

definition initial_clients :: clients where
  "initial_clients = \<lparr>manager = DescriptorPoolsManagerVulkan_new, leases = []\<rparr>"

definition registered :: "DescriptorPoolsManagerVulkan \<Rightarrow> ptr set" where
  "registered m = fst ` set (poolSets m)"

text \<open>The allocator never hands out the address of a live registry.\<close>

definition fresh_for :: "ptr \<Rightarrow> DescriptorPoolsManagerVulkan \<Rightarrow> bool" where
  "fresh_for newPtr m \<longleftrightarrow> (\<exists>r \<in> set (poolSets m). IsUnused (snd r)) \<or> newPtr \<notin> registered m"

text \<open>One call. The result is \<open>None\<close> for a call that cannot happen: an allocation at
  the address of a live registry, or a release through a reference to no registry.\<close>

fun call_step :: "call \<Rightarrow> clients \<Rightarrow> clients option" where
  "call_step (Acquire FrameCount newPtr) s =
     (if fresh_for newPtr (manager s)
      then (case AcquirePoolSetContainer FrameCount newPtr (manager s) of
              (p, m') \<Rightarrow> Some \<lparr>manager = m', leases = p # leases s\<rparr>)
      else None)"
| "call_step (Release FrameCount p) s =
     (if p \<in> registered (manager s)
      then Some \<lparr>manager = ReleasePoolSet FrameCount p (manager s), leases = removeAll p (leases s)\<rparr>
      else None)"

fun calls :: "call list \<Rightarrow> clients \<Rightarrow> clients option" where
  "calls [] s = Some s"
| "calls (c # cs) s = (case call_step c s of None \<Rightarrow> None | Some s' \<Rightarrow> calls cs s')"

definition released_in :: "ptr \<Rightarrow> call list \<Rightarrow> bool" where
  "released_in p cs \<longleftrightarrow> (\<exists>FrameCount. Release FrameCount p \<in> set cs)"

definition marked_used :: "DescriptorPoolsManagerVulkan \<Rightarrow> ptr \<Rightarrow> bool" where
  "marked_used m p \<longleftrightarrow> (\<exists>c. (p, c) \<in> set (poolSets m) \<and> used c)"

definition marked_free :: "DescriptorPoolsManagerVulkan \<Rightarrow> ptr \<Rightarrow> bool" where
  "marked_free m p \<longleftrightarrow> (\<exists>c. (p, c) \<in> set (poolSets m) \<and> \<not> used c)"

text \<open>Concrete inputs: a registry with one chain in use, stamped at frame 5, and managers
  built from it.\<close>

definition example_registry :: "bool \<Rightarrow> uint64 \<Rightarrow> DescriptorPoolSetContainerVulkan" where
  "example_registry u frame =
     \<lparr>typedDescriptorPools = [7 \<mapsto> used_chain], lastFrameUsed = frame, used = u\<rparr>"

definition example_manager :: DescriptorPoolsManagerVulkan where
  "example_manager =
     \<lparr>poolSets = [(10, example_registry False 5), (13, example_registry False 7),
                  (11, example_registry True 5), (12, example_registry False 90)]\<rparr>"

definition busy_manager :: DescriptorPoolsManagerVulkan where
  "busy_manager = \<lparr>poolSets = [(10, example_registry True 5), (11, example_registry True 6)]\<rparr>"

text \<open>What holds between the calls: the registries have different addresses, no address
  is leased twice, and every leased registry is marked used.\<close>

definition lease_invariant :: "clients \<Rightarrow> bool" where
  "lease_invariant s \<longleftrightarrow>
     distinct (map fst (poolSets (manager s)))
     \<and> distinct (leases s)
     \<and> (\<forall>p \<in> set (leases s). marked_used (manager s) p)"

definition example_calls :: "call list" where
  "example_calls = [Acquire 1 100, Acquire 1 101, Release 2 100]"

section \<open>Properties of SetupDescriptorWrites\<close>

lemmas write_defs = write_buffer_def write_image_def write_texel_def write_dynamic_def

lemma setup_step_cursor:
  assumes "setup_step d i s = Inr s'" and "cursor_of (DescriptorType d) = Some c"
  shows "pointer_of c (writes s' i) = Some (cursor_pos c s) \<and>
         cursor_pos c s' = cursor_pos c s + advance d"
  using assms
  apply (cases "DescriptorType d")
            apply (simp_all add: setup_step_def Let_def)
          apply (auto simp: write_defs advance_def)
  done

lemma setup_step_other_cursor:
  assumes "setup_step d i s = Inr s'" and "cursor_of (DescriptorType d) \<noteq> Some c"
  shows "cursor_pos c s' = cursor_pos c s"
  using assms
  apply (cases "DescriptorType d"; cases c)
            apply (simp_all add: setup_step_def Let_def)
          apply (auto simp: write_defs)
  done

lemma setup_step_handled:
  assumes "setup_step d i s = Inr s'"
  shows "cursor_of (DescriptorType d) \<noteq> None"
  using assms
  by (cases "DescriptorType d") (simp_all add: setup_step_def Let_def)

lemma setup_step_frame:
  assumes "setup_step d i s = Inr s'" and "k \<noteq> i"
  shows "writes s' k = writes s k \<and> bindingToDynamicOffset s' k = bindingToDynamicOffset s k"
  using assms
  apply (cases "DescriptorType d")
            apply (simp_all add: setup_step_def Let_def)
          apply (auto simp: write_defs)
  done

lemma setup_step_fields:
  assumes "setup_step d i s = Inr s'"
  shows "dstBinding (writes s' i) = of_nat i \<and> descriptorCount (writes s' i) = Count d
    \<and> descriptorType (writes s' i) = DescriptorType d"
  using assms
  apply (cases "DescriptorType d")
            apply (simp_all add: setup_step_def Let_def)
          apply (auto simp: write_defs)
  done

lemma setup_step_dynamic:
  assumes "setup_step d i s = Inr s'"
  shows "dynamicOffsetIndex s' = dynamicOffsetIndex s + (if is_dynamic d then 1 else 0)
    \<and> (is_dynamic d \<longrightarrow> bindingToDynamicOffset s' i = ucast (dynamicOffsetIndex s))"
  using assms
  apply (cases "DescriptorType d")
            apply (simp_all add: setup_step_def Let_def is_dynamic_def)
          apply (auto simp: write_defs)
  done

lemma setup_step_Inl:
  assumes "setup_step d i s = Inl e"
  shows "e = Crash \<and> cursor_of (DescriptorType d) = None"
  using assms
  by (cases "DescriptorType d") (simp_all add: setup_step_def Let_def)

lemma setup_step_total:
  assumes "cursor_of (DescriptorType d) \<noteq> None"
  shows "\<exists>s'. setup_step d i s = Inr s'"
  using assms
  by (cases "DescriptorType d") (simp_all add: setup_step_def Let_def)


lemma setup_loop_Cons_Inr:
  assumes "setup_loop (d # ds) i s = Inr s'"
  obtains s1 where "setup_step d i s = Inr s1" and "setup_loop ds (Suc i) s1 = Inr s'"
  using assms by (cases "setup_step d i s") simp_all

lemma setup_loop_frame:
  "setup_loop ds i s = Inr s' \<Longrightarrow> k < i \<Longrightarrow>
     writes s' k = writes s k \<and> bindingToDynamicOffset s' k = bindingToDynamicOffset s k"
proof (induction ds arbitrary: i s)
  case Nil
  then show ?case by simp
next
  case (Cons d ds)
  from Cons.prems(1) obtain s1 where st: "setup_step d i s = Inr s1"
    and lp: "setup_loop ds (Suc i) s1 = Inr s'"
    by (rule setup_loop_Cons_Inr)
  from Cons.IH [OF lp] Cons.prems(2) setup_step_frame [OF st, of k]
  show ?case by simp
qed

lemma setup_loop_handled:
  "setup_loop ds i s = Inr s' \<Longrightarrow> d \<in> set ds \<Longrightarrow> cursor_of (DescriptorType d) \<noteq> None"
proof (induction ds arbitrary: i s)
  case Nil
  then show ?case by simp
next
  case (Cons a ds)
  from Cons.prems(1) obtain s1 where st: "setup_step a i s = Inr s1"
    and lp: "setup_loop ds (Suc i) s1 = Inr s'"
    by (rule setup_loop_Cons_Inr)
  from Cons.prems(2) Cons.IH [OF lp] setup_step_handled [OF st]
  show ?case by auto
qed

lemma cursor_offset_Nil [simp]: "cursor_offset c [] = 0"
  by (simp add: cursor_offset_def)

lemma cursor_offset_Cons:
  "cursor_offset c (d # ds) =
     (if cursor_of (DescriptorType d) = Some c then advance d else 0) + cursor_offset c ds"
  by (simp add: cursor_offset_def)

lemma setup_step_cursor_pos:
  assumes "setup_step d i s = Inr s1"
  shows "cursor_pos c s1 = cursor_pos c s + (if cursor_of (DescriptorType d) = Some c then advance d else 0)"
  using setup_step_cursor [OF assms, of c] setup_step_other_cursor [OF assms, of c]
  by simp

lemma setup_loop_cursor_pos:
  "setup_loop ds i s = Inr s' \<Longrightarrow> cursor_pos c s' = cursor_pos c s + cursor_offset c ds"
proof (induction ds arbitrary: i s)
  case Nil
  then show ?case by simp
next
  case (Cons d ds)
  from Cons.prems(1) obtain s1 where st: "setup_step d i s = Inr s1"
    and lp: "setup_loop ds (Suc i) s1 = Inr s'"
    by (rule setup_loop_Cons_Inr)
  from Cons.IH [OF lp] setup_step_cursor_pos [OF st, of c]
  show ?case by (simp add: cursor_offset_Cons)
qed

lemma setup_loop_dynamicOffsetIndex:
  "setup_loop ds i s = Inr s' \<Longrightarrow>
     dynamicOffsetIndex s' = dynamicOffsetIndex s + of_nat (length (filter is_dynamic ds))"
proof (induction ds arbitrary: i s)
  case Nil
  then show ?case by simp
next
  case (Cons d ds)
  from Cons.prems(1) obtain s1 where st: "setup_step d i s = Inr s1"
    and lp: "setup_loop ds (Suc i) s1 = Inr s'"
    by (rule setup_loop_Cons_Inr)
  from Cons.IH [OF lp] setup_step_dynamic [OF st]
  show ?case by simp
qed

lemma setup_loop_write:
  "setup_loop ds i s = Inr s' \<Longrightarrow> j < length ds \<Longrightarrow>
     cursor_of (DescriptorType (ds ! j)) = Some c \<Longrightarrow>
     pointer_of c (writes s' (i + j)) = Some (cursor_pos c s + cursor_offset c (take j ds))
     \<and> dstBinding (writes s' (i + j)) = of_nat (i + j)
     \<and> descriptorCount (writes s' (i + j)) = Count (ds ! j)
     \<and> descriptorType (writes s' (i + j)) = DescriptorType (ds ! j)"
proof (induction ds arbitrary: i s j)
  case Nil
  then show ?case by simp
next
  case (Cons d ds)
  from Cons.prems(1) obtain s1 where st: "setup_step d i s = Inr s1"
    and lp: "setup_loop ds (Suc i) s1 = Inr s'"
    by (rule setup_loop_Cons_Inr)
  show ?case
  proof (cases j)
    case 0
    with Cons.prems(3) have c: "cursor_of (DescriptorType d) = Some c" by simp
    have "writes s' i = writes s1 i"
      using setup_loop_frame [OF lp, of i] by simp
    with setup_step_cursor [OF st c] setup_step_fields [OF st] 0
    show ?thesis by simp
  next
    case (Suc j')
    with Cons.prems have j': "j' < length ds" and c: "cursor_of (DescriptorType (ds ! j')) = Some c"
      by simp_all
    from Cons.IH [OF lp j' c] setup_step_cursor_pos [OF st, of c] Suc
    show ?thesis by (simp add: cursor_offset_Cons)
  qed
qed

lemma setup_loop_slot:
  "setup_loop ds i s = Inr s' \<Longrightarrow> j < length ds \<Longrightarrow> is_dynamic (ds ! j) \<Longrightarrow>
     bindingToDynamicOffset s' (i + j) =
       ucast (dynamicOffsetIndex s + of_nat (length (filter is_dynamic (take j ds))))"
proof (induction ds arbitrary: i s j)
  case Nil
  then show ?case by simp
next
  case (Cons d ds)
  from Cons.prems(1) obtain s1 where st: "setup_step d i s = Inr s1"
    and lp: "setup_loop ds (Suc i) s1 = Inr s'"
    by (rule setup_loop_Cons_Inr)
  show ?case
  proof (cases j)
    case 0
    with Cons.prems(3) have dyn: "is_dynamic d" by simp
    have "bindingToDynamicOffset s' i = bindingToDynamicOffset s1 i"
      using setup_loop_frame [OF lp, of i] by simp
    with setup_step_dynamic [OF st] dyn 0
    show ?thesis by simp
  next
    case (Suc j')
    with Cons.prems have j': "j' < length ds" and dyn: "is_dynamic (ds ! j')"
      by simp_all
    from Cons.IH [OF lp j' dyn] setup_step_dynamic [OF st] Suc
    show ?thesis by (simp add: add.assoc)
  qed
qed

lemma setup_loop_total:
  "(\<And>d. d \<in> set ds \<Longrightarrow> cursor_of (DescriptorType d) \<noteq> None) \<Longrightarrow> \<exists>s'. setup_loop ds i s = Inr s'"
proof (induction ds arbitrary: i s)
  case Nil
  then show ?case by simp
next
  case (Cons d ds)
  from Cons.prems have "cursor_of (DescriptorType d) \<noteq> None" by simp
  from setup_step_total [OF this] obtain s1 where st: "setup_step d i s = Inr s1" by blast
  from Cons.IH [of "Suc i" s1] Cons.prems obtain s' where "setup_loop ds (Suc i) s1 = Inr s'"
    by auto
  with st show ?case by simp
qed

lemma setup_loop_crash:
  "d \<in> set ds \<Longrightarrow> cursor_of (DescriptorType d) = None \<Longrightarrow> setup_loop ds i s = Inl Crash"
proof (induction ds arbitrary: i s)
  case Nil
  then show ?case by simp
next
  case (Cons a ds)
  show ?case
  proof (cases "setup_step a i s")
    case (Inl e)
    with setup_step_Inl [OF Inl] show ?thesis by simp
  next
    case (Inr s1)
    from setup_step_handled [OF Inr] Cons.prems have "d \<in> set ds" by auto
    from Cons.IH [OF this Cons.prems(2)] Inr show ?thesis by simp
  qed
qed


lemma SetupDescriptorWrites_Inr:
  assumes "SetupDescriptorWrites MaxDescriptors info W img buf tex B = Inr (n, w)"
  obtains s' where "length info \<le> MaxDescriptors"
    and "setup_loop info 0 \<lparr>writes = W, bindingToDynamicOffset = B, dynamicOffsetIndex = 0,
            imageInfo = img, bufferInfo = buf, texelBufferView = tex\<rparr> = Inr s'"
    and "n = dynamicOffsetIndex s'" and "WriteDescriptors w = writes s'"
    and "BindingToDynamicOffset w = bindingToDynamicOffset s'"
    and "WritesCount w = of_nat (length info)"
  using assms
  by (auto simp: SetupDescriptorWrites_def split: if_splits sum.splits)

lemma slot_fits_uint8:
  "k < 256 \<Longrightarrow> unat (ucast (of_nat k :: uint32) :: uint8) = k"
  by (simp add: unsigned_ucast_eq unat_of_nat take_bit_nat_eq_self)

lemma count_fits_uint32:
  "k \<le> 256 \<Longrightarrow> unat (of_nat k :: uint32) = k"
  by (simp add: unat_of_nat)

lemma SetupDescriptorWrites_returns_iff:
  "(\<exists>r. SetupDescriptorWrites MaxDescriptors info W img buf tex B = Inr r) \<longleftrightarrow>
     length info \<le> MaxDescriptors \<and> (\<forall>d\<in>set info. cursor_of (DescriptorType d) \<noteq> None)"
proof
  assume "\<exists>r. SetupDescriptorWrites MaxDescriptors info W img buf tex B = Inr r"
  then obtain n w where "SetupDescriptorWrites MaxDescriptors info W img buf tex B = Inr (n, w)"
    by auto
  then obtain s' where "length info \<le> MaxDescriptors"
    and "setup_loop info 0 \<lparr>writes = W, bindingToDynamicOffset = B, dynamicOffsetIndex = 0,
            imageInfo = img, bufferInfo = buf, texelBufferView = tex\<rparr> = Inr s'"
    by (rule SetupDescriptorWrites_Inr)
  with setup_loop_handled
  show "length info \<le> MaxDescriptors \<and> (\<forall>d\<in>set info. cursor_of (DescriptorType d) \<noteq> None)"
    by blast
next
  assume a: "length info \<le> MaxDescriptors \<and> (\<forall>d\<in>set info. cursor_of (DescriptorType d) \<noteq> None)"
  then obtain s' where "setup_loop info 0 \<lparr>writes = W, bindingToDynamicOffset = B,
            dynamicOffsetIndex = 0, imageInfo = img, bufferInfo = buf,
            texelBufferView = tex\<rparr> = Inr s'"
    using setup_loop_total [of info 0] by blast
  with a show "\<exists>r. SetupDescriptorWrites MaxDescriptors info W img buf tex B = Inr r"
    by (simp add: SetupDescriptorWrites_def)
qed

lemma filter_before_dynamic:
  assumes "i < length xs" and "P (xs ! i)"
  shows "length (filter P (take i xs)) < length (filter P xs)"
proof -
  from assms(1) have "xs = take i xs @ xs ! i # drop (Suc i) xs"
    by (rule id_take_nth_drop)
  then have "filter P xs = filter P (take i xs) @ filter P (xs ! i # drop (Suc i) xs)"
    by (metis filter_append)
  with assms(2) show ?thesis by simp
qed

text \<open>Claim C5, as amended. On every binding metadata list on which
  \<^verbatim>\<open>SetupDescriptorWrites\<close> returns and which holds at most 256 bindings that take a
  dynamic offset (a slot is stored in 8 bits), the dynamic-offset slots are dense and in
  binding-declaration order: the binding at position \<open>i\<close> that takes a dynamic offset
  gets as slot the number of dynamic bindings declared before it (the \<open>k\<close>-th one gets
  \<open>k - 1\<close>), and the returned value is the number of dynamic bindings.\<close>

theorem SetupDescriptorWrites_dynamic_slots:
  assumes "SetupDescriptorWrites MaxDescriptors info W img buf tex B = Inr (n, w)"
    and "length (filter is_dynamic info) \<le> 256"
  shows "unat n = length (filter is_dynamic info) \<and>
         (\<forall>i<length info. is_dynamic (info ! i) \<longrightarrow>
            unat (BindingToDynamicOffset w i) = length (filter is_dynamic (take i info)))"
proof -
  from assms(1) obtain s' where
    lp: "setup_loop info 0 \<lparr>writes = W, bindingToDynamicOffset = B, dynamicOffsetIndex = 0,
            imageInfo = img, bufferInfo = buf, texelBufferView = tex\<rparr> = Inr s'"
    and n: "n = dynamicOffsetIndex s'"
    and b: "BindingToDynamicOffset w = bindingToDynamicOffset s'"
    by (rule SetupDescriptorWrites_Inr)
  have ret: "unat n = length (filter is_dynamic info)"
    using setup_loop_dynamicOffsetIndex [OF lp] n assms(2) by (simp add: count_fits_uint32)
  have "unat (BindingToDynamicOffset w i) = length (filter is_dynamic (take i info))"
    if i: "i < length info" and dyn: "is_dynamic (info ! i)" for i
  proof -
    from filter_before_dynamic [of i info is_dynamic, OF i dyn] assms(2)
    have "length (filter is_dynamic (take i info)) < 256" by linarith
    with setup_loop_slot [OF lp i dyn] b show ?thesis
      by (simp add: slot_fits_uint8)
  qed
  with ret show ?thesis by blast
qed

text \<open>Claim C6, as amended. Every write of a returning call points into the cursor its
  descriptor type is routed to (image infos for sampler and image types, buffer infos for
  buffer types, texel views for texel-buffer types), at the start offset of that cursor
  plus what the earlier bindings routed to the same cursor moved it: the element count of
  each, and one for each dynamic uniform buffer.\<close>

theorem SetupDescriptorWrites_cursor_offsets:
  assumes "SetupDescriptorWrites MaxDescriptors info W img buf tex B = Inr (n, w)"
    and "i < length info"
  shows "(\<exists>c. cursor_of (DescriptorType (info ! i)) = Some c \<and>
            pointer_of c (WriteDescriptors w i) =
              Some (cursor_start c img buf tex + cursor_offset c (take i info)))
       \<and> dstBinding (WriteDescriptors w i) = of_nat i
       \<and> descriptorType (WriteDescriptors w i) = DescriptorType (info ! i)
       \<and> descriptorCount (WriteDescriptors w i) = Count (info ! i)"
proof -
  from assms(1) obtain s' where
    lp: "setup_loop info 0 \<lparr>writes = W, bindingToDynamicOffset = B, dynamicOffsetIndex = 0,
            imageInfo = img, bufferInfo = buf, texelBufferView = tex\<rparr> = Inr s'"
    and w: "WriteDescriptors w = writes s'"
    by (rule SetupDescriptorWrites_Inr)
  from setup_loop_handled [OF lp, of "info ! i"] assms(2)
  obtain c where c: "cursor_of (DescriptorType (info ! i)) = Some c" by auto
  from setup_loop_write [OF lp assms(2) c] w
  have "pointer_of c (WriteDescriptors w i) =
          Some (cursor_start c img buf tex + cursor_offset c (take i info))"
    and "dstBinding (WriteDescriptors w i) = of_nat i
       \<and> descriptorType (WriteDescriptors w i) = DescriptorType (info ! i)
       \<and> descriptorCount (WriteDescriptors w i) = Count (info ! i)"
    by (cases c; simp add: cursor_start_def)+
  with c show ?thesis by blast
qed

text \<open>Claim C9. \<^verbatim>\<open>VK_DESCRIPTOR_TYPE_STORAGE_BUFFER_DYNAMIC\<close> is not among the
  \<^verbatim>\<open>case\<close> labels: the iteration for such a binding ends in \<^verbatim>\<open>CRASH\<close>, and
  every metadata list that holds one halts the call (in \<^verbatim>\<open>CRASH\<close>, or earlier in the
  assertion on the number of descriptors).\<close>

theorem SetupDescriptorWrites_storage_buffer_dynamic:
  assumes "d \<in> set info" and "DescriptorType d = VK_DESCRIPTOR_TYPE_STORAGE_BUFFER_DYNAMIC"
  shows "setup_step d i s = Inl Crash \<and>
         SetupDescriptorWrites MaxDescriptors info W img buf tex B =
           Inl (if length info \<le> MaxDescriptors then Crash else AssertionFailed)"
proof -
  from assms(2) have none: "cursor_of (DescriptorType d) = None" by simp
  have "setup_step d i s = Inl Crash"
    using assms(2) by (simp add: setup_step_def Let_def)
  moreover have "SetupDescriptorWrites MaxDescriptors info W img buf tex B =
           Inl (if length info \<le> MaxDescriptors then Crash else AssertionFailed)"
    using setup_loop_crash [OF assms(1) none] by (simp add: SetupDescriptorWrites_def)
  ultimately show ?thesis by simp
qed

lemma example_info_run:
  "SetupDescriptorWrites 64 example_info zero_writes 0 0 0 zero_bytes =
     Inr (fst (projr (SetupDescriptorWrites 64 example_info zero_writes 0 0 0 zero_bytes)),
          snd (projr (SetupDescriptorWrites 64 example_info zero_writes 0 0 0 zero_bytes)))"
  by (simp add: SetupDescriptorWrites_def example_info_def setup_step_def write_defs Let_def)

theorem SetupDescriptorWrites_dynamic_slots_witness:
  "unat (fst (projr (SetupDescriptorWrites 64 example_info zero_writes 0 0 0 zero_bytes))) = 3 \<and>
   unat (BindingToDynamicOffset (snd (projr (SetupDescriptorWrites 64 example_info zero_writes 0 0 0 zero_bytes))) 1) = 0 \<and>
   unat (BindingToDynamicOffset (snd (projr (SetupDescriptorWrites 64 example_info zero_writes 0 0 0 zero_bytes))) 3) = 1 \<and>
   unat (BindingToDynamicOffset (snd (projr (SetupDescriptorWrites 64 example_info zero_writes 0 0 0 zero_bytes))) 4) = 2"
proof -
  have le: "length (filter is_dynamic example_info) \<le> 256"
    by (simp add: example_info_def is_dynamic_def)
  note t = SetupDescriptorWrites_dynamic_slots [OF example_info_run le]
  have "length example_info = 5" by (simp add: example_info_def)
  have f: "filter is_dynamic example_info = [example_info ! 1, example_info ! 3, example_info ! 4]"
    by (simp add: example_info_def is_dynamic_def)
  have d: "is_dynamic (example_info ! 1)" "is_dynamic (example_info ! 3)" "is_dynamic (example_info ! 4)"
    by (simp_all add: example_info_def is_dynamic_def)
  have tk: "length (filter is_dynamic (take 1 example_info)) = 0"
    "length (filter is_dynamic (take 3 example_info)) = 1"
    "length (filter is_dynamic (take 4 example_info)) = 2"
    by (simp_all add: example_info_def is_dynamic_def)
  from t f have "unat (fst (projr (SetupDescriptorWrites 64 example_info zero_writes 0 0 0 zero_bytes))) = 3"
    by simp
  moreover from t d tk \<open>length example_info = 5\<close>
  have "unat (BindingToDynamicOffset (snd (projr (SetupDescriptorWrites 64 example_info zero_writes 0 0 0 zero_bytes))) 1) = 0"
    "unat (BindingToDynamicOffset (snd (projr (SetupDescriptorWrites 64 example_info zero_writes 0 0 0 zero_bytes))) 3) = 1"
   "unat (BindingToDynamicOffset (snd (projr (SetupDescriptorWrites 64 example_info zero_writes 0 0 0 zero_bytes))) 4) = 2"
    by simp_all
  ultimately show ?thesis by simp
qed

lemma dynamic_array_info_run:
  "SetupDescriptorWrites 64 dynamic_array_info zero_writes 0 0 0 zero_bytes =
     Inr (fst (projr (SetupDescriptorWrites 64 dynamic_array_info zero_writes 0 0 0 zero_bytes)),
          snd (projr (SetupDescriptorWrites 64 dynamic_array_info zero_writes 0 0 0 zero_bytes)))"
  by (simp add: SetupDescriptorWrites_def dynamic_array_info_def setup_step_def write_defs Let_def)

text \<open>Claim C6 as stated fails on a dynamic uniform buffer with two elements followed by a
  uniform buffer: the call returns, the second write points at buffer info 1, and the
  element counts of the earlier bindings on the buffer cursor sum to 2.\<close>

theorem SetupDescriptorWrites_element_count_counterexample:
  "\<not> isl (SetupDescriptorWrites 64 dynamic_array_info zero_writes 0 0 0 zero_bytes) \<and>
   cursor_of (DescriptorType (dynamic_array_info ! 1)) = Some BufferInfoCursor \<and>
   pBufferInfo (WriteDescriptors
      (snd (projr (SetupDescriptorWrites 64 dynamic_array_info zero_writes 0 0 0 zero_bytes))) 1) = Some 1 \<and>
   descriptorCount (WriteDescriptors
      (snd (projr (SetupDescriptorWrites 64 dynamic_array_info zero_writes 0 0 0 zero_bytes))) 0) = 2 \<and>
   element_count_sum BufferInfoCursor (take 1 dynamic_array_info) = 2"
  by (simp add: SetupDescriptorWrites_def dynamic_array_info_def setup_step_def write_defs Let_def
      element_count_sum_def)

theorem SetupDescriptorWrites_cursor_offsets_witness:
  "pBufferInfo (WriteDescriptors
      (snd (projr (SetupDescriptorWrites 64 dynamic_array_info zero_writes 0 0 0 zero_bytes))) 1) = Some 1"
proof -
  have i: "1 < length dynamic_array_info" by (simp add: dynamic_array_info_def)
  from SetupDescriptorWrites_cursor_offsets [OF dynamic_array_info_run i, THEN conjunct1]
  obtain c where c: "cursor_of (DescriptorType (dynamic_array_info ! 1)) = Some c"
    and p: "pointer_of c (WriteDescriptors
      (snd (projr (SetupDescriptorWrites 64 dynamic_array_info zero_writes 0 0 0 zero_bytes))) 1) =
      Some (cursor_start c 0 0 0 + cursor_offset c (take 1 dynamic_array_info))"
    by blast
  from c have "c = BufferInfoCursor" by (simp add: dynamic_array_info_def)
  with p show ?thesis
    by (simp add: cursor_start_def cursor_offset_def advance_def dynamic_array_info_def)
qed

theorem SetupDescriptorWrites_storage_buffer_dynamic_witness:
  "setup_step (storage_dynamic_info ! 1) 1 \<lparr>writes = zero_writes, bindingToDynamicOffset = zero_bytes,
      dynamicOffsetIndex = 0, imageInfo = 0, bufferInfo = 1, texelBufferView = 0\<rparr> = Inl Crash \<and>
   SetupDescriptorWrites 64 storage_dynamic_info zero_writes 0 0 0 zero_bytes = Inl Crash"
proof -
  have m: "storage_dynamic_info ! 1 \<in> set storage_dynamic_info"
    by (simp add: storage_dynamic_info_def)
  have t: "DescriptorType (storage_dynamic_info ! 1) = VK_DESCRIPTOR_TYPE_STORAGE_BUFFER_DYNAMIC"
    by (simp add: storage_dynamic_info_def)
  have l: "length storage_dynamic_info \<le> 64" by (simp add: storage_dynamic_info_def)
  from SetupDescriptorWrites_storage_buffer_dynamic [OF m t, of 1 _ 64 zero_writes 0 0 0 zero_bytes] l
  show ?thesis by simp
qed

lemma many_dynamic_info_slot:
  "\<not> isl (SetupDescriptorWrites 300 many_dynamic_info zero_writes 0 0 0 zero_bytes) \<and>
   unat (BindingToDynamicOffset
      (snd (projr (SetupDescriptorWrites 300 many_dynamic_info zero_writes 0 0 0 zero_bytes))) 256) = 0"
proof -
  let ?d = "\<lparr>DescriptorType = VK_DESCRIPTOR_TYPE_UNIFORM_BUFFER_DYNAMIC, Count = 1\<rparr>"
  let ?s0 = "\<lparr>writes = zero_writes, bindingToDynamicOffset = zero_bytes, dynamicOffsetIndex = 0,
            imageInfo = 0, bufferInfo = 0, texelBufferView = 0\<rparr>"
  have dyn: "is_dynamic ?d" by (simp add: is_dynamic_def)
  have "\<And>d. d \<in> set many_dynamic_info \<Longrightarrow> cursor_of (DescriptorType d) \<noteq> None"
    by (auto simp: many_dynamic_info_def)
  from setup_loop_total [of many_dynamic_info 0 ?s0, OF this]
  obtain s' where lp: "setup_loop many_dynamic_info 0 ?s0 = Inr s'" by blast
  have len: "length many_dynamic_info = 257" by (simp add: many_dynamic_info_def)
  then have run: "SetupDescriptorWrites 300 many_dynamic_info zero_writes 0 0 0 zero_bytes =
      Inr (dynamicOffsetIndex s',
           \<lparr>WriteDescriptors = writes s', WritesCount = of_nat 257,
            BindingToDynamicOffset = bindingToDynamicOffset s'\<rparr>)"
    using lp by (simp add: SetupDescriptorWrites_def)
  have i: "256 < length many_dynamic_info" using len by simp
  have d256: "is_dynamic (many_dynamic_info ! 256)"
    using dyn by (simp add: many_dynamic_info_def)
  have "filter is_dynamic (take 256 many_dynamic_info) = replicate 256 ?d"
    using dyn by (simp add: many_dynamic_info_def)
  then have "length (filter is_dynamic (take 256 many_dynamic_info)) = 256" by simp
  with setup_loop_slot [OF lp i d256]
  have "bindingToDynamicOffset s' 256 = ucast (of_nat 256 :: uint32)" by simp
  then have "unat (bindingToDynamicOffset s' 256) = 0" by simp
  with run show ?thesis by simp
qed

text \<open>Claim C5 as stated fails on two lists. On a uniform buffer followed by a dynamic
  storage buffer, binding 1 takes a dynamic offset, yet the call stops in \<^verbatim>\<open>CRASH\<close>:
  it assigns the binding no slot and returns no count. On 257 dynamic uniform buffers
  (with room for 300 descriptors) the call returns, 256 dynamic bindings precede binding
  256, and its slot, stored in 8 bits, is 0.\<close>

theorem SetupDescriptorWrites_dynamic_slots_counterexample:
  "1 < length storage_dynamic_info \<and>
   length storage_dynamic_info \<le> 64 \<and>
   is_dynamic (storage_dynamic_info ! 1) \<and>
   SetupDescriptorWrites 64 storage_dynamic_info zero_writes 0 0 0 zero_bytes = Inl Crash \<and>
   256 < length many_dynamic_info \<and>
   is_dynamic (many_dynamic_info ! 256) \<and>
   length (filter is_dynamic (take 256 many_dynamic_info)) = 256 \<and>
   \<not> isl (SetupDescriptorWrites 300 many_dynamic_info zero_writes 0 0 0 zero_bytes) \<and>
   unat (BindingToDynamicOffset
      (snd (projr (SetupDescriptorWrites 300 many_dynamic_info zero_writes 0 0 0 zero_bytes))) 256) = 0"
proof -
  have "1 < length storage_dynamic_info \<and> length storage_dynamic_info \<le> 64 \<and>
     is_dynamic (storage_dynamic_info ! 1)"
    by (simp add: storage_dynamic_info_def is_dynamic_def)
  moreover have "SetupDescriptorWrites 64 storage_dynamic_info zero_writes 0 0 0 zero_bytes = Inl Crash"
    by (simp add: SetupDescriptorWrites_def storage_dynamic_info_def setup_step_def write_defs Let_def)
  moreover have "256 < length many_dynamic_info \<and> is_dynamic (many_dynamic_info ! 256) \<and>
     length (filter is_dynamic (take 256 many_dynamic_info)) = 256"
    by (simp add: many_dynamic_info_def is_dynamic_def)
  ultimately show ?thesis using many_dynamic_info_slot by simp
qed

section \<open>Properties of the layout signatures\<close>

lemma CacheTypesUsageID_keeps:
  "typesUsageHashMap c h = Some v \<Longrightarrow>
     typesUsageHashMap (snd (CacheTypesUsageID MemCrc32 l c)) h = Some v"
  by (auto simp: CacheTypesUsageID_def Let_def split: option.splits)

lemma CacheTypesUsageID_hit:
  "typesUsageHashMap c (MemCrc32 (layoutTypes l)) = Some v \<Longrightarrow>
     typesUsageID (fst (CacheTypesUsageID MemCrc32 l c)) = v"
  by (simp add: CacheTypesUsageID_def Let_def)

lemma CacheTypesUsageID_stores:
  "typesUsageHashMap (snd (CacheTypesUsageID MemCrc32 l c)) (MemCrc32 (layoutTypes l)) =
     Some (typesUsageID (fst (CacheTypesUsageID MemCrc32 l c)))"
  by (simp add: CacheTypesUsageID_def Let_def split: option.splits)

lemma CacheTypesUsageID_calls_Cons:
  "CacheTypesUsageID_calls MemCrc32 (l # ls) c =
     (fst (CacheTypesUsageID MemCrc32 l c)
        # fst (CacheTypesUsageID_calls MemCrc32 ls (snd (CacheTypesUsageID MemCrc32 l c))),
      snd (CacheTypesUsageID_calls MemCrc32 ls (snd (CacheTypesUsageID MemCrc32 l c))))"
  by (simp add: case_prod_beta)

lemma CacheTypesUsageID_calls_hit:
  "typesUsageHashMap c (MemCrc32 (layoutTypes (ls ! j))) = Some v \<Longrightarrow> j < length ls \<Longrightarrow>
     typesUsageID (fst (CacheTypesUsageID_calls MemCrc32 ls c) ! j) = v"
proof (induction ls arbitrary: c j)
  case Nil
  then show ?case by simp
next
  case (Cons l ls)
  show ?case
  proof (cases j)
    case 0
    with Cons.prems CacheTypesUsageID_hit [of c MemCrc32 l v] show ?thesis
      by (simp add: CacheTypesUsageID_calls_Cons del: CacheTypesUsageID_calls.simps)
  next
    case (Suc j')
    with Cons.prems have "typesUsageHashMap (snd (CacheTypesUsageID MemCrc32 l c))
        (MemCrc32 (layoutTypes (ls ! j'))) = Some v" and "j' < length ls"
      by (simp_all add: CacheTypesUsageID_keeps)
    from Cons.IH [OF this] Suc show ?thesis
      by (simp add: CacheTypesUsageID_calls_Cons del: CacheTypesUsageID_calls.simps)
  qed
qed

lemma CacheTypesUsageID_calls_first:
  assumes "j < length ls" and "MemCrc32 (layoutTypes (ls ! j)) = MemCrc32 (layoutTypes l)"
  shows "typesUsageID (fst (CacheTypesUsageID_calls MemCrc32 (l # ls) c) ! Suc j) =
         typesUsageID (fst (CacheTypesUsageID_calls MemCrc32 (l # ls) c) ! 0)"
  using CacheTypesUsageID_calls_hit [of "snd (CacheTypesUsageID MemCrc32 l c)" MemCrc32 ls j
      "typesUsageID (fst (CacheTypesUsageID MemCrc32 l c))"] assms
  by (simp add: CacheTypesUsageID_calls_Cons CacheTypesUsageID_stores del: CacheTypesUsageID_calls.simps)

lemma CacheTypesUsageID_calls_same_hash:
  "i < length ls \<Longrightarrow> j < length ls \<Longrightarrow>
   MemCrc32 (layoutTypes (ls ! i)) = MemCrc32 (layoutTypes (ls ! j)) \<Longrightarrow>
     typesUsageID (fst (CacheTypesUsageID_calls MemCrc32 ls c) ! i) =
     typesUsageID (fst (CacheTypesUsageID_calls MemCrc32 ls c) ! j)"
proof (induction ls arbitrary: c i j)
  case Nil
  then show ?case by simp
next
  case (Cons l ls)
  show ?case
  proof (cases i; cases j)
    fix i' j'
    assume ij: "i = Suc i'" "j = Suc j'"
    with Cons.prems have "i' < length ls" "j' < length ls"
      "MemCrc32 (layoutTypes (ls ! i')) = MemCrc32 (layoutTypes (ls ! j'))"
      by simp_all
    from Cons.IH [OF this] ij show ?thesis
      by (simp add: CacheTypesUsageID_calls_Cons del: CacheTypesUsageID_calls.simps)
  next
    fix j'
    assume ij: "i = 0" "j = Suc j'"
    with Cons.prems CacheTypesUsageID_calls_first [of j' ls MemCrc32 l c] show ?thesis
      by simp
  next
    fix i'
    assume ij: "i = Suc i'" "j = 0"
    with Cons.prems CacheTypesUsageID_calls_first [of i' ls MemCrc32 l c] show ?thesis
      by simp
  next
    assume "i = 0" "j = 0"
    then show ?thesis by simp
  qed
qed

text \<open>Claim C3. In any sequence of \<^verbatim>\<open>CacheTypesUsageID\<close> calls against the one cache,
  started from any state of the cache, two layouts whose histograms are equal entry for
  entry are given the same usage ID, wherever the two calls stand in the sequence and
  whatever is computed between them.\<close>

theorem CacheTypesUsageID_equal_histograms:
  assumes "i < length ls" and "j < length ls"
    and "\<forall>t. layoutTypes (ls ! i) t = layoutTypes (ls ! j) t"
  shows "typesUsageID (fst (CacheTypesUsageID_calls MemCrc32 ls c) ! i) =
         typesUsageID (fst (CacheTypesUsageID_calls MemCrc32 ls c) ! j)"
proof -
  from assms(3) have "layoutTypes (ls ! i) = layoutTypes (ls ! j)"
    by (simp add: fun_eq_iff)
  then have "MemCrc32 (layoutTypes (ls ! i)) = MemCrc32 (layoutTypes (ls ! j))"
    by simp
  with assms(1,2) show ?thesis
    by (rule CacheTypesUsageID_calls_same_hash)
qed

theorem CacheTypesUsageID_equal_histograms_witness:
  "typesUsageID (fst (CacheTypesUsageID_calls example_crc example_layouts initial_usage_cache) ! 0) =
   typesUsageID (fst (CacheTypesUsageID_calls example_crc example_layouts initial_usage_cache) ! 2) \<and>
   map typesUsageID (fst (CacheTypesUsageID_calls example_crc example_layouts initial_usage_cache)) =
     [1, 2, 1]"
proof -
  have l: "0 < length example_layouts" "2 < length example_layouts"
    by (simp_all add: example_layouts_def)
  have h: "\<forall>t. layoutTypes (example_layouts ! 0) t = layoutTypes (example_layouts ! 2) t"
    by (simp add: example_layouts_def example_layout_def samplers_and_buffers_def
        buffers_and_samplers_def)
  have v: "map typesUsageID (fst (CacheTypesUsageID_calls example_crc example_layouts initial_usage_cache)) =
     [1, 2, 1]"
    by (simp add: example_layouts_def example_layout_def samplers_and_buffers_def
        buffers_and_samplers_def samplers_only_def example_crc_def initial_usage_cache_def
        CacheTypesUsageID_def Let_def)
  from CacheTypesUsageID_equal_histograms [OF l h, of example_crc initial_usage_cache] v
  show ?thesis by simp
qed














section \<open>Properties of the pool chain\<close>

lemma Reset_pool_fields:
  "allocatedDescriptorSetsCount (DescriptorPoolVulkan_Reset p) = 0"
  "handle (DescriptorPoolVulkan_Reset p) = Some h' \<Longrightarrow> vk_allocated h' = 0"
  "handle p = Some h \<Longrightarrow> handle (DescriptorPoolVulkan_Reset p) = Some (h\<lparr>vk_allocated := 0\<rparr>)"
  by (auto simp: DescriptorPoolVulkan_Reset_def vkResetDescriptorPool_def split: option.splits)

lemma Reset_chain_fields:
  "poolList (TypedDescriptorPoolSetVulkan_Reset s) = map DescriptorPoolVulkan_Reset (poolList s)"
  "poolList s \<noteq> [] \<Longrightarrow> poolListCurrent (TypedDescriptorPoolSetVulkan_Reset s) = Some 0"
  by (simp_all add: TypedDescriptorPoolSetVulkan_Reset_def)

lemma allocate_loop_head:
  assumes "poolListCurrent s = Some 0" and "poolList s = p # ps" and "handle p = Some h"
    and "vk_allocated h < vk_capacity h"
  shows "allocate_loop capacity s =
           Some (Inr (s\<lparr>poolList := p\<lparr>handle := Some (h\<lparr>vk_allocated := Suc (vk_allocated h)\<rparr>)\<rparr> # ps\<rparr>))"
  using assms
  by (subst allocate_loop.simps)
     (simp add: DescriptorPoolVulkan_AllocateDescriptorSets_def vkAllocateDescriptorSets_def)

lemma allocations_head:
  "poolListCurrent s = Some 0 \<Longrightarrow> poolList s = p # ps \<Longrightarrow> handle p = Some h \<Longrightarrow>
   vk_allocated h + n \<le> vk_capacity h \<Longrightarrow>
     \<exists>s'. allocations capacity layout n s = Some (Inr s')
        \<and> poolListCurrent s' = Some 0
        \<and> (\<exists>p'. poolList s' = p' # ps
              \<and> handle p' =
                  Some (h\<lparr>vk_allocated := vk_allocated h + (if handles layout = [] then 0 else n)\<rparr>))"
proof (induction n arbitrary: s p h)
  case 0
  then show ?case by simp
next
  case (Suc n)
  show ?case
  proof (cases "handles layout = []")
    case True
    then have a: "TypedDescriptorPoolSetVulkan_AllocateDescriptorSets capacity layout s = Some (Inr (True, s))"
      by (simp add: TypedDescriptorPoolSetVulkan_AllocateDescriptorSets_def)
    from Suc.prems have "vk_allocated h + n \<le> vk_capacity h" by simp
    from Suc.IH [OF Suc.prems(1,2,3) this, of ] a True show ?thesis by simp
  next
    case False
    let ?h = "h\<lparr>vk_allocated := Suc (vk_allocated h)\<rparr>"
    let ?p = "p\<lparr>handle := Some ?h\<rparr>"
    let ?s = "s\<lparr>poolList := ?p # ps\<rparr>"
    from Suc.prems have lt: "vk_allocated h < vk_capacity h" by simp
    from allocate_loop_head [OF Suc.prems(1,2,3) lt] False
    have a: "TypedDescriptorPoolSetVulkan_AllocateDescriptorSets capacity layout s = Some (Inr (True, ?s))"
      by (simp add: TypedDescriptorPoolSetVulkan_AllocateDescriptorSets_def)
    have "poolListCurrent ?s = Some 0" "poolList ?s = ?p # ps" "handle ?p = Some ?h"
      using Suc.prems(1) by simp_all
    moreover from Suc.prems have "vk_allocated ?h + n \<le> vk_capacity ?h" by simp
    ultimately obtain s' p' where "allocations capacity layout n ?s = Some (Inr s')"
      "poolListCurrent s' = Some 0" "poolList s' = p' # ps"
      "handle p' = Some (?h\<lparr>vk_allocated := vk_allocated ?h + (if handles layout = [] then 0 else n)\<rparr>)"
      using Suc.IH [of ?s ?p ?h] by blast
    with a False show ?thesis by simp
  qed
qed

text \<open>Claim C8. \<^verbatim>\<open>Reset\<close> on a chain with at least one pool puts the cursor on the first
  pool and leaves every pool with no allocation, in its counter and in its native pool.
  Every run of at most \<open>C\<close> allocations after it, \<open>C\<close> being the capacity of the first
  pool, returns with the cursor still on the first pool, the chain as long as before and
  its other pools untouched: the first pool served every request (none is made for a
  layout without handles).\<close>

theorem Reset_then_allocations_stay_in_first_pool:
  assumes "poolList s \<noteq> []" and "handle (hd (poolList s)) = Some h" and "n \<le> vk_capacity h"
  shows "poolListCurrent (TypedDescriptorPoolSetVulkan_Reset s) = Some 0
       \<and> (\<forall>p\<in>set (poolList (TypedDescriptorPoolSetVulkan_Reset s)).
             allocatedDescriptorSetsCount p = 0
           \<and> (\<forall>h'. handle p = Some h' \<longrightarrow> vk_allocated h' = 0))
       \<and> (\<exists>s'. allocations capacity layout n (TypedDescriptorPoolSetVulkan_Reset s) = Some (Inr s')
             \<and> poolListCurrent s' = Some 0
             \<and> length (poolList s') = length (poolList s)
             \<and> tl (poolList s') = tl (poolList (TypedDescriptorPoolSetVulkan_Reset s))
             \<and> handle (hd (poolList s')) =
                 Some (h\<lparr>vk_allocated := (if handles layout = [] then 0 else n)\<rparr>))"
proof -
  let ?r = "TypedDescriptorPoolSetVulkan_Reset s"
  from assms(1) obtain p ps where s: "poolList s = p # ps" by (cases "poolList s") auto
  with assms(2) have hp: "handle p = Some h" by simp
  have cur: "poolListCurrent ?r = Some 0"
    using assms(1) by (rule Reset_chain_fields(2))
  have zero: "\<forall>p\<in>set (poolList ?r). allocatedDescriptorSetsCount p = 0
           \<and> (\<forall>h'. handle p = Some h' \<longrightarrow> vk_allocated h' = 0)"
    using Reset_pool_fields(1,2) by (auto simp: Reset_chain_fields(1))
  have rl: "poolList ?r = DescriptorPoolVulkan_Reset p # map DescriptorPoolVulkan_Reset ps"
    using s by (simp add: Reset_chain_fields(1))
  have rh: "handle (DescriptorPoolVulkan_Reset p) = Some (h\<lparr>vk_allocated := 0\<rparr>)"
    using hp by (rule Reset_pool_fields(3))
  have "vk_allocated (h\<lparr>vk_allocated := 0\<rparr>) + n \<le> vk_capacity (h\<lparr>vk_allocated := 0\<rparr>)"
    using assms(3) by simp
  from allocations_head [OF cur rl rh this, of capacity layout]
  obtain s' p' where "allocations capacity layout n ?r = Some (Inr s')"
    "poolListCurrent s' = Some 0" "poolList s' = p' # map DescriptorPoolVulkan_Reset ps"
    "handle p' = Some (h\<lparr>vk_allocated := (if handles layout = [] then 0 else n)\<rparr>)"
    by auto
  with s rl have "allocations capacity layout n ?r = Some (Inr s')
             \<and> poolListCurrent s' = Some 0
             \<and> length (poolList s') = length (poolList s)
             \<and> tl (poolList s') = tl (poolList ?r)
             \<and> handle (hd (poolList s')) =
                 Some (h\<lparr>vk_allocated := (if handles layout = [] then 0 else n)\<rparr>)"
    by simp
  with cur zero show ?thesis by blast
qed

theorem Reset_then_allocations_stay_in_first_pool_witness:
  "poolListCurrent (TypedDescriptorPoolSetVulkan_Reset used_chain) = Some 0 \<and>
   map allocatedDescriptorSetsCount (poolList (TypedDescriptorPoolSetVulkan_Reset used_chain)) = [0, 0] \<and>
   poolListCurrent (projr (the (allocations 2 one_set_layout 2
      (TypedDescriptorPoolSetVulkan_Reset used_chain)))) = Some 0 \<and>
   length (poolList (projr (the (allocations 2 one_set_layout 2
      (TypedDescriptorPoolSetVulkan_Reset used_chain))))) = 2 \<and>
   handle (hd (poolList (projr (the (allocations 2 one_set_layout 2
      (TypedDescriptorPoolSetVulkan_Reset used_chain)))))) =
     Some \<lparr>vk_capacity = 2, vk_allocated = 2\<rparr>"
proof -
  have ne: "poolList used_chain \<noteq> []" by (simp add: used_chain_def)
  have h: "handle (hd (poolList used_chain)) = Some \<lparr>vk_capacity = 2, vk_allocated = 2\<rparr>"
    by (simp add: used_chain_def)
  have n: "2 \<le> vk_capacity \<lparr>vk_capacity = 2, vk_allocated = 2\<rparr>" by simp
  from Reset_then_allocations_stay_in_first_pool [OF ne h n, of 2 one_set_layout]
  obtain s' where cur: "poolListCurrent (TypedDescriptorPoolSetVulkan_Reset used_chain) = Some 0"
    and z: "\<forall>p\<in>set (poolList (TypedDescriptorPoolSetVulkan_Reset used_chain)).
             allocatedDescriptorSetsCount p = 0
           \<and> (\<forall>h'. handle p = Some h' \<longrightarrow> vk_allocated h' = 0)"
    and a: "allocations 2 one_set_layout 2 (TypedDescriptorPoolSetVulkan_Reset used_chain) = Some (Inr s')"
    and s': "poolListCurrent s' = Some 0" "length (poolList s') = length (poolList used_chain)"
      "handle (hd (poolList s')) =
         Some (\<lparr>vk_capacity = 2, vk_allocated = 2\<rparr>\<lparr>vk_allocated :=
            (if handles one_set_layout = [] then 0 else 2)\<rparr>)"
    by blast
  have "map allocatedDescriptorSetsCount (poolList (TypedDescriptorPoolSetVulkan_Reset used_chain)) = [0, 0]"
    using z by (simp add: used_chain_def TypedDescriptorPoolSetVulkan_Reset_def)
  with cur a s' show ?thesis
    by (simp add: used_chain_def one_set_layout_def)
qed

text \<open>Past the capacity of the first pool the chain moves on, and grows when it has no
  next pool: five allocations over two reset pools of capacity 2 end in a third pool.\<close>

lemma chain_grows_after_capacity:
  "poolListCurrent (projr (the (allocations 2 one_set_layout 5
      (TypedDescriptorPoolSetVulkan_Reset used_chain)))) = Some 2 \<and>
   length (poolList (projr (the (allocations 2 one_set_layout 5
      (TypedDescriptorPoolSetVulkan_Reset used_chain))))) = 3"
  by (simp add: used_chain_def one_set_layout_def TypedDescriptorPoolSetVulkan_Reset_def
      DescriptorPoolVulkan_Reset_def vkResetDescriptorPool_def numeral_eq_Suc
      TypedDescriptorPoolSetVulkan_AllocateDescriptorSets_def allocate_loop.simps
      DescriptorPoolVulkan_AllocateDescriptorSets_def vkAllocateDescriptorSets_def
      GetFreePool_def PushNewPool_def DescriptorPoolVulkan_new_def)

section \<open>Properties of the registries and their manager\<close>

text \<open>Claim C7, as amended. \<^verbatim>\<open>SetUsed\<close> sets the flag to the given value and
  records the current frame counter when the flag marks the registry used; when the flag
  marks it free the stamp stays as it was. Nothing else of the registry changes.\<close>

theorem SetUsed_stamps_when_marked_used:
  "used (SetUsed FrameCount u c) = u \<and>
   lastFrameUsed (SetUsed FrameCount u c) = (if u then FrameCount else lastFrameUsed c) \<and>
   typedDescriptorPools (SetUsed FrameCount u c) = typedDescriptorPools c"
  by (simp add: SetUsed_def)

text \<open>Claim C7 as stated fails: at frame 9, marking a registry stamped 5 free leaves the
  stamp at 5, and marking it used moves the stamp to 9.\<close>

theorem SetUsed_free_since_counterexample:
  "lastFrameUsed (SetUsed 9 False (example_registry True 5)) = 5 \<and>
   lastFrameUsed (SetUsed 9 True (example_registry False 5)) = 9"
  by (simp add: SetUsed_def example_registry_def)

theorem SetUsed_stamps_when_marked_used_witness:
  "used (SetUsed 9 True (example_registry False 5)) \<and>
   lastFrameUsed (SetUsed 9 True (example_registry False 5)) = 9 \<and>
   \<not> used (SetUsed 9 False (example_registry True 5)) \<and>
   lastFrameUsed (SetUsed 9 False (example_registry True 5)) = 5"
  using SetUsed_stamps_when_marked_used [of 9 True "example_registry False 5"]
    SetUsed_stamps_when_marked_used [of 9 False "example_registry True 5"]
  by (simp add: example_registry_def)

lemma GC_scan_none:
  "(\<And>j. j < n \<Longrightarrow> \<not> gc_eligible FrameCount safeFrames (snd (ps ! j))) \<Longrightarrow>
     GC_scan RemoveAt FrameCount safeFrames n ps = ps"
  by (induction n) simp_all

lemma GC_scan_last_eligible:
  "\<exists>j<n. gc_eligible FrameCount safeFrames (snd (ps ! j)) \<Longrightarrow>
     \<exists>i<n. gc_eligible FrameCount safeFrames (snd (ps ! i))
       \<and> (\<forall>j<n. i < j \<longrightarrow> \<not> gc_eligible FrameCount safeFrames (snd (ps ! j)))
       \<and> GC_scan RemoveAt FrameCount safeFrames n ps = RemoveAt i ps"
proof (induction n)
  case 0
  then show ?case by simp
next
  case (Suc n)
  show ?case
  proof (cases "gc_eligible FrameCount safeFrames (snd (ps ! n))")
    case True
    then have "gc_eligible FrameCount safeFrames (snd (ps ! n))
       \<and> (\<forall>j<Suc n. n < j \<longrightarrow> \<not> gc_eligible FrameCount safeFrames (snd (ps ! j)))
       \<and> GC_scan RemoveAt FrameCount safeFrames (Suc n) ps = RemoveAt n ps"
      by simp
    then show ?thesis by blast
  next
    case False
    with Suc.prems have "\<exists>j<n. gc_eligible FrameCount safeFrames (snd (ps ! j))"
      using less_Suc_eq by auto
    from Suc.IH [OF this] obtain i where i: "i < n"
      "gc_eligible FrameCount safeFrames (snd (ps ! i))"
      "\<forall>j<n. i < j \<longrightarrow> \<not> gc_eligible FrameCount safeFrames (snd (ps ! j))"
      "GC_scan RemoveAt FrameCount safeFrames n ps = RemoveAt i ps"
      by blast
    from i(3) False have "\<forall>j<Suc n. i < j \<longrightarrow> \<not> gc_eligible FrameCount safeFrames (snd (ps ! j))"
      using less_Suc_eq by auto
    with i False have "i < Suc n \<and> gc_eligible FrameCount safeFrames (snd (ps ! i))
       \<and> (\<forall>j<Suc n. i < j \<longrightarrow> \<not> gc_eligible FrameCount safeFrames (snd (ps ! j)))
       \<and> GC_scan RemoveAt FrameCount safeFrames (Suc n) ps = RemoveAt i ps"
      by simp
    then show ?thesis by blast
  qed
qed

lemma gc_eligible_iff:
  "gc_eligible FrameCount safeFrames c \<longleftrightarrow>
     \<not> used c \<and> safeFrames < FrameCount - lastFrameUsed c"
  by (simp add: gc_eligible_def IsUnused_def GetLastFrameUsed_def)

lemma not_gc_eligible_iff:
  "\<not> gc_eligible FrameCount safeFrames c \<longleftrightarrow>
     used c \<or> FrameCount - lastFrameUsed c \<le> safeFrames"
  by (auto simp: gc_eligible_iff)

text \<open>With the stamp not after the frame counter, the unsigned difference is the number
  of frames between them.\<close>

lemma frames_since_stamp:
  "lastFrameUsed c \<le> FrameCount \<Longrightarrow>
     unat (FrameCount - lastFrameUsed c) = unat FrameCount - unat (lastFrameUsed c)"
  by (rule unat_sub)

text \<open>Claim C1. For every \<^verbatim>\<open>RemoveAt\<close> that takes out the element at the given index
  and nothing else: when every registry is in use or has its stamp within \<open>safeFrames\<close>
  of the frame counter, \<^verbatim>\<open>GC\<close> changes nothing; otherwise it destroys exactly one
  registry, which is free and stale beyond the margin and is the last such registry of
  the array, and it keeps every other registry.\<close>

theorem GC_destroys_last_stale_free_registry:
  assumes "\<forall>xs i. i < length xs \<longrightarrow> mset (RemoveAt i xs) = mset xs - {#xs ! i#}"
  shows "((\<forall>r\<in>set (poolSets m). used (snd r) \<or> FrameCount - lastFrameUsed (snd r) \<le> safeFrames)
            \<longrightarrow> GC RemoveAt FrameCount safeFrames m = m)
       \<and> ((\<exists>r\<in>set (poolSets m). \<not> used (snd r) \<and> safeFrames < FrameCount - lastFrameUsed (snd r))
            \<longrightarrow> (\<exists>i<length (poolSets m).
                   \<not> used (snd (poolSets m ! i))
                 \<and> safeFrames < FrameCount - lastFrameUsed (snd (poolSets m ! i))
                 \<and> (\<forall>j<length (poolSets m). i < j \<longrightarrow>
                       used (snd (poolSets m ! j))
                     \<or> FrameCount - lastFrameUsed (snd (poolSets m ! j)) \<le> safeFrames)
                 \<and> poolSets (GC RemoveAt FrameCount safeFrames m) = RemoveAt i (poolSets m)
                 \<and> mset (poolSets (GC RemoveAt FrameCount safeFrames m))
                     = mset (poolSets m) - {#poolSets m ! i#}))"
proof (intro conjI impI)
  assume "\<forall>r\<in>set (poolSets m). used (snd r) \<or> FrameCount - lastFrameUsed (snd r) \<le> safeFrames"
  then have "\<And>j. j < length (poolSets m) \<Longrightarrow> \<not> gc_eligible FrameCount safeFrames (snd (poolSets m ! j))"
    by (simp add: not_gc_eligible_iff)
  from GC_scan_none [of "length (poolSets m)" FrameCount safeFrames "poolSets m" RemoveAt, OF this]
  show "GC RemoveAt FrameCount safeFrames m = m"
    by (simp add: GC_def)
next
  assume "\<exists>r\<in>set (poolSets m). \<not> used (snd r) \<and> safeFrames < FrameCount - lastFrameUsed (snd r)"
  then have "\<exists>j<length (poolSets m). gc_eligible FrameCount safeFrames (snd (poolSets m ! j))"
    by (metis gc_eligible_iff in_set_conv_nth)
  from GC_scan_last_eligible [OF this, of RemoveAt] obtain i where i: "i < length (poolSets m)"
    "gc_eligible FrameCount safeFrames (snd (poolSets m ! i))"
    "\<forall>j<length (poolSets m). i < j \<longrightarrow> \<not> gc_eligible FrameCount safeFrames (snd (poolSets m ! j))"
    "GC_scan RemoveAt FrameCount safeFrames (length (poolSets m)) (poolSets m) = RemoveAt i (poolSets m)"
    by blast
  from i(4) have eq: "poolSets (GC RemoveAt FrameCount safeFrames m) = RemoveAt i (poolSets m)"
    by (simp add: GC_def)
  with assms i(1) have "mset (poolSets (GC RemoveAt FrameCount safeFrames m))
                     = mset (poolSets m) - {#poolSets m ! i#}"
    by simp
  with i eq show "\<exists>i<length (poolSets m).
                   \<not> used (snd (poolSets m ! i))
                 \<and> safeFrames < FrameCount - lastFrameUsed (snd (poolSets m ! i))
                 \<and> (\<forall>j<length (poolSets m). i < j \<longrightarrow>
                       used (snd (poolSets m ! j))
                     \<or> FrameCount - lastFrameUsed (snd (poolSets m ! j)) \<le> safeFrames)
                 \<and> poolSets (GC RemoveAt FrameCount safeFrames m) = RemoveAt i (poolSets m)
                 \<and> mset (poolSets (GC RemoveAt FrameCount safeFrames m))
                     = mset (poolSets m) - {#poolSets m ! i#}"
    unfolding gc_eligible_iff not_gc_eligible_iff [symmetric] by blast
qed

lemma mset_RemoveAtKeepOrder:
  "i < length xs \<Longrightarrow> mset (RemoveAtKeepOrder i xs) = mset xs - {#xs ! i#}"
proof -
  assume i: "i < length xs"
  then have "xs = take i xs @ xs ! i # drop (Suc i) xs"
    by (rule id_take_nth_drop)
  then have "mset xs = mset (take i xs @ drop (Suc i) xs) + {#xs ! i#}"
    by (metis add_mset_add_single mset.simps(2) mset_append union_mset_add_mset_right)
  then show ?thesis by (simp add: RemoveAtKeepOrder_def)
qed

lemma mset_RemoveAtSwap:
  "i < length xs \<Longrightarrow> mset (RemoveAtSwap i xs) = mset xs - {#xs ! i#}"
proof -
  assume i: "i < length xs"
  let ?ys = "xs[i := last xs]"
  from i have ne: "?ys \<noteq> []" by auto
  have l: "last ?ys = last xs"
  proof -
    from i have "xs \<noteq> []" by auto
    then show ?thesis by (simp add: last_list_update)
  qed
  from ne have "mset ?ys = add_mset (last ?ys) (mset (butlast ?ys))"
    by (metis append_butlast_last_id mset.simps(2) mset_append add_mset_add_single union_mset_add_mset_right mset.simps(1) add.right_neutral)
  moreover from i have "mset ?ys = add_mset (last xs) (mset xs - {#xs ! i#})"
    by (rule mset_update)
  ultimately have "mset (butlast ?ys) = mset xs - {#xs ! i#}"
    using l by simp
  then show ?thesis by (simp add: RemoveAtSwap_def)
qed


theorem GC_destroys_last_stale_free_registry_witness:
  "map fst (poolSets (GC RemoveAtSwap 100 20 example_manager)) = [10, 12, 11] \<and>
   GC RemoveAtSwap 100 20 busy_manager = busy_manager"
proof -
  have R: "\<forall>(xs :: registry list) i. i < length xs \<longrightarrow> mset (RemoveAtSwap i xs) = mset xs - {#xs ! i#}"
    by (simp add: mset_RemoveAtSwap)
  note t1 = GC_destroys_last_stale_free_registry [OF R, of busy_manager 100 20, THEN conjunct1]
  note t2 = GC_destroys_last_stale_free_registry [OF R, of example_manager 100 20, THEN conjunct2]
  have "\<forall>r\<in>set (poolSets busy_manager). used (snd r) \<or> 100 - lastFrameUsed (snd r) \<le> 20"
    by (simp add: busy_manager_def example_registry_def)
  with t1 have busy: "GC RemoveAtSwap 100 20 busy_manager = busy_manager" by blast
  have "\<exists>r\<in>set (poolSets example_manager). \<not> used (snd r) \<and> 20 < 100 - lastFrameUsed (snd r)"
    by (simp add: example_manager_def example_registry_def)
  with t2 obtain i where i: "i < length (poolSets example_manager)"
    and free: "\<not> used (snd (poolSets example_manager ! i))"
    and stale: "20 < 100 - lastFrameUsed (snd (poolSets example_manager ! i))"
    and later: "\<forall>j<length (poolSets example_manager). i < j \<longrightarrow>
                  used (snd (poolSets example_manager ! j))
                \<or> 100 - lastFrameUsed (snd (poolSets example_manager ! j)) \<le> 20"
    and res: "poolSets (GC RemoveAtSwap 100 20 example_manager) = RemoveAtSwap i (poolSets example_manager)"
    by blast
  from i have "i = 0 \<or> i = 1 \<or> i = 2 \<or> i = 3"
    by (auto simp: example_manager_def)
  moreover have "i \<noteq> 0"
    using later [rule_format, of 1] by (auto simp: example_manager_def example_registry_def)
  moreover have "i \<noteq> 2"
    using free by (auto simp: example_manager_def example_registry_def)
  moreover have "i \<noteq> 3"
    using stale by (auto simp: example_manager_def example_registry_def)
  ultimately have "i = 1" by blast
  with res have "map fst (poolSets (GC RemoveAtSwap 100 20 example_manager)) = [10, 12, 11]"
    by (simp add: example_manager_def RemoveAtSwap_def)
  with busy show ?thesis by simp
qed

lemma acquire_scan_None:
  "acquire_scan FrameCount ps = None \<longleftrightarrow> (\<forall>r\<in>set ps. used (snd r))"
  by (induction ps) (auto simp: IsUnused_def split: option.splits if_splits)

lemma acquire_scan_Some:
  "acquire_scan FrameCount ps = Some (p, ps') \<Longrightarrow>
     \<exists>ps1 c ps2. ps = ps1 @ (p, c) # ps2 \<and> (\<forall>r\<in>set ps1. used (snd r)) \<and> \<not> used c
       \<and> ps' = ps1 @ (p, DescriptorPoolSetContainerVulkan_Reset (SetUsed FrameCount True c)) # ps2"
proof (induction ps arbitrary: ps')
  case Nil
  then show ?case by simp
next
  case (Cons r ps)
  obtain q c where r: "r = (q, c)" by (cases r)
  show ?case
  proof (cases "IsUnused c")
    case True
    with Cons.prems r have "p = q"
      and "ps' = (q, DescriptorPoolSetContainerVulkan_Reset (SetUsed FrameCount True c)) # ps"
      by auto
    with True r have "r # ps = [] @ (p, c) # ps \<and> (\<forall>r\<in>set []. used (snd r)) \<and> \<not> used c
       \<and> ps' = [] @ (p, DescriptorPoolSetContainerVulkan_Reset (SetUsed FrameCount True c)) # ps"
      by (simp add: IsUnused_def)
    then show ?thesis by blast
  next
    case False
    with Cons.prems r obtain ps'' where sc: "acquire_scan FrameCount ps = Some (p, ps'')"
      and ps': "ps' = (q, c) # ps''"
      by (auto split: option.splits)
    from Cons.IH [OF sc] obtain ps1 d ps2 where d: "ps = ps1 @ (p, d) # ps2"
      "\<forall>r\<in>set ps1. used (snd r)" "\<not> used d"
      "ps'' = ps1 @ (p, DescriptorPoolSetContainerVulkan_Reset (SetUsed FrameCount True d)) # ps2"
      by blast
    with False r ps' have "r # ps = ((q, c) # ps1) @ (p, d) # ps2
       \<and> (\<forall>r\<in>set ((q, c) # ps1). used (snd r)) \<and> \<not> used d
       \<and> ps' = ((q, c) # ps1) @ (p, DescriptorPoolSetContainerVulkan_Reset (SetUsed FrameCount True d)) # ps2"
      by (simp add: IsUnused_def)
    then show ?thesis by blast
  qed
qed

lemma new_registry_fields:
  "used (DescriptorPoolSetContainerVulkan_new FrameCount) \<and>
   lastFrameUsed (DescriptorPoolSetContainerVulkan_new FrameCount) = FrameCount \<and>
   typedDescriptorPools (DescriptorPoolSetContainerVulkan_new FrameCount) = Map.empty"
  by (simp add: DescriptorPoolSetContainerVulkan_new_def)

lemma reset_registry_used:
  "used (DescriptorPoolSetContainerVulkan_Reset (SetUsed FrameCount True c))"
  by (simp add: DescriptorPoolSetContainerVulkan_Reset_def SetUsed_def)

lemma Acquire_cases:
  assumes "AcquirePoolSetContainer FrameCount newPtr m = (p, m')"
  shows "((\<forall>r\<in>set (poolSets m). used (snd r)) \<and> p = newPtr
           \<and> poolSets m' = poolSets m @ [(newPtr, DescriptorPoolSetContainerVulkan_new FrameCount)])
       \<or> (\<exists>ps1 c ps2. poolSets m = ps1 @ (p, c) # ps2 \<and> (\<forall>r\<in>set ps1. used (snd r)) \<and> \<not> used c
             \<and> poolSets m' =
                 ps1 @ (p, DescriptorPoolSetContainerVulkan_Reset (SetUsed FrameCount True c)) # ps2)"
proof (cases "acquire_scan FrameCount (poolSets m)")
  case None
  with assms acquire_scan_None [of FrameCount "poolSets m"] show ?thesis
    by (auto simp: AcquirePoolSetContainer_def)
next
  case (Some a)
  obtain q ps' where a: "a = (q, ps')" by (cases a)
  with Some assms have "q = p" and "poolSets m' = ps'"
    by (auto simp: AcquirePoolSetContainer_def)
  with Some a acquire_scan_Some [of FrameCount "poolSets m" p ps'] show ?thesis
    by blast
qed

text \<open>Claim C10. A call of \<^verbatim>\<open>AcquirePoolSetContainer\<close> either finds every registry in
  use, and then appends and returns a new registry exactly as the constructor leaves it
  (marked used, stamped with the current frame counter, with no pool sets, no
  \<^verbatim>\<open>Reset\<close> applied); or it returns the first free registry, the only one to which
  \<^verbatim>\<open>SetUsed(true)\<close> and \<^verbatim>\<open>Reset\<close> are applied.\<close>

theorem Acquire_resets_only_a_reused_registry:
  assumes "AcquirePoolSetContainer FrameCount newPtr m = (p, m')"
  shows "((\<forall>r\<in>set (poolSets m). used (snd r)) \<and> p = newPtr
           \<and> poolSets m' = poolSets m @ [(newPtr, DescriptorPoolSetContainerVulkan_new FrameCount)]
           \<and> used (DescriptorPoolSetContainerVulkan_new FrameCount)
           \<and> lastFrameUsed (DescriptorPoolSetContainerVulkan_new FrameCount) = FrameCount
           \<and> typedDescriptorPools (DescriptorPoolSetContainerVulkan_new FrameCount) = Map.empty)
       \<or> (\<exists>ps1 c ps2. poolSets m = ps1 @ (p, c) # ps2 \<and> (\<forall>r\<in>set ps1. used (snd r)) \<and> \<not> used c
             \<and> poolSets m' =
                 ps1 @ (p, DescriptorPoolSetContainerVulkan_Reset (SetUsed FrameCount True c)) # ps2)"
  using Acquire_cases [OF assms] new_registry_fields [of FrameCount] by blast


theorem Acquire_resets_only_a_reused_registry_witness:
  "fst (AcquirePoolSetContainer 9 20 busy_manager) = 20 \<and>
   poolSets (snd (AcquirePoolSetContainer 9 20 busy_manager)) =
     poolSets busy_manager @ [(20, DescriptorPoolSetContainerVulkan_new 9)] \<and>
   fst (AcquirePoolSetContainer 9 20 example_manager) = 10 \<and>
   poolSets (snd (AcquirePoolSetContainer 9 20 example_manager)) =
     (10, DescriptorPoolSetContainerVulkan_Reset (SetUsed 9 True (example_registry False 5)))
       # tl (poolSets example_manager)"
proof -
  let ?b = "AcquirePoolSetContainer 9 20 busy_manager"
  let ?e = "AcquirePoolSetContainer 9 20 example_manager"
  have b: "?b = (fst ?b, snd ?b)" and e: "?e = (fst ?e, snd ?e)" by simp_all
  note tb = Acquire_resets_only_a_reused_registry [OF b]
  note te = Acquire_resets_only_a_reused_registry [OF e]
  have all: "\<forall>r\<in>set (poolSets busy_manager). used (snd r)"
    by (simp add: busy_manager_def example_registry_def)
  have "\<not> (\<exists>ps1 c ps2. poolSets busy_manager = ps1 @ (fst ?b, c) # ps2 \<and> \<not> used c)"
  proof
    assume "\<exists>ps1 c ps2. poolSets busy_manager = ps1 @ (fst ?b, c) # ps2 \<and> \<not> used c"
    then obtain ps1 c ps2 where "poolSets busy_manager = ps1 @ (fst ?b, c) # ps2" and c: "\<not> used c"
      by blast
    then have "(fst ?b, c) \<in> set (poolSets busy_manager)" by simp
    with all c show False by auto
  qed
  with tb have busy: "fst ?b = 20 \<and> poolSets (snd ?b) =
     poolSets busy_manager @ [(20, DescriptorPoolSetContainerVulkan_new 9)]"
    by blast
  have h: "poolSets example_manager = (10, example_registry False 5) # tl (poolSets example_manager)"
    by (simp add: example_manager_def)
  have free: "\<not> used (example_registry False 5)" by (simp add: example_registry_def)
  from h free have "\<not> (\<forall>r\<in>set (poolSets example_manager). used (snd r))"
    by (metis list.set_intros(1) snd_conv)
  with te obtain ps1 c ps2 where d: "poolSets example_manager = ps1 @ (fst ?e, c) # ps2"
    "\<forall>r\<in>set ps1. used (snd r)"
    "poolSets (snd ?e) = ps1 @ (fst ?e, DescriptorPoolSetContainerVulkan_Reset (SetUsed 9 True c)) # ps2"
    by blast
  have "ps1 = []"
  proof (cases ps1)
    case Nil
    then show ?thesis .
  next
    case (Cons r rs)
    with d(1) h have "r = (10, example_registry False 5)" by (metis append_Cons list.inject)
    with Cons d(2) free show ?thesis by simp
  qed
  with d(1) h have "fst ?e = 10" "c = example_registry False 5" "ps2 = tl (poolSets example_manager)"
    by (metis append_Nil list.inject prod.inject)+
  with d(3) \<open>ps1 = []\<close> have "fst ?e = 10 \<and> poolSets (snd ?e) =
     (10, DescriptorPoolSetContainerVulkan_Reset (SetUsed 9 True (example_registry False 5)))
       # tl (poolSets example_manager)"
    by simp
  with busy show ?thesis by simp
qed

lemma acquire_scan_ptrs:
  "acquire_scan FrameCount ps = Some (p, ps') \<Longrightarrow> map fst ps' = map fst ps"
  by (drule acquire_scan_Some) auto

lemma same_address_same_registry:
  "distinct (map fst ps) \<Longrightarrow> (p, a) \<in> set ps \<Longrightarrow> (p, b) \<in> set ps \<Longrightarrow> a = b"
  by (rule eq_key_imp_eq_value)

lemma marked_used_registered: "marked_used m p \<Longrightarrow> p \<in> registered m"
  by (force simp: marked_used_def registered_def)

lemma marked_free_registered: "marked_free m p \<Longrightarrow> p \<in> registered m"
  by (force simp: marked_free_def registered_def)

lemma Acquire_step:
  assumes inv: "lease_invariant s"
    and fresh: "fresh_for newPtr (manager s)"
    and acq: "AcquirePoolSetContainer FrameCount newPtr (manager s) = (p, m')"
  shows "p \<notin> set (leases s)"
    and "marked_used m' p"
    and "lease_invariant \<lparr>manager = m', leases = p # leases s\<rparr>"
    and "\<And>q. marked_free m' q \<Longrightarrow> marked_free (manager s) q"
    and "p \<in> registered (manager s) \<Longrightarrow> marked_free (manager s) p"
    and "p \<notin> registered (manager s) \<Longrightarrow> p = newPtr \<and>
           poolSets m' = poolSets (manager s) @ [(newPtr, DescriptorPoolSetContainerVulkan_new FrameCount)]"
proof -
  let ?m = "manager s"
  from inv have dist: "distinct (map fst (poolSets ?m))" and dl: "distinct (leases s)"
    and lu: "\<And>q. q \<in> set (leases s) \<Longrightarrow> marked_used ?m q"
    by (simp_all add: lease_invariant_def)
  from Acquire_cases [OF acq]
  consider (new) "\<forall>r\<in>set (poolSets ?m). used (snd r)" "p = newPtr"
      "poolSets m' = poolSets ?m @ [(newPtr, DescriptorPoolSetContainerVulkan_new FrameCount)]"
    | (reuse) ps1 c ps2 where "poolSets ?m = ps1 @ (p, c) # ps2" "\<not> used c"
      "poolSets m' = ps1 @ (p, DescriptorPoolSetContainerVulkan_Reset (SetUsed FrameCount True c)) # ps2"
    by blast
  then have "p \<notin> set (leases s) \<and> marked_used m' p
      \<and> lease_invariant \<lparr>manager = m', leases = p # leases s\<rparr>
      \<and> (\<forall>q. marked_free m' q \<longrightarrow> marked_free ?m q)
      \<and> (p \<in> registered ?m \<longrightarrow> marked_free ?m p)
      \<and> (p \<notin> registered ?m \<longrightarrow> p = newPtr \<and>
           poolSets m' = poolSets ?m @ [(newPtr, DescriptorPoolSetContainerVulkan_new FrameCount)])"
  proof cases
    case new
    from new(1) fresh have nr: "newPtr \<notin> registered ?m"
      by (auto simp: fresh_for_def IsUnused_def)
    with new(2) lu have notl: "p \<notin> set (leases s)"
      using marked_used_registered by blast
    have mu: "marked_used m' p"
      using new by (auto simp: marked_used_def new_registry_fields)
    have keep: "\<And>q. marked_used ?m q \<Longrightarrow> marked_used m' q"
      using new(3) by (auto simp: marked_used_def)
    from nr new dist have "distinct (map fst (poolSets m'))"
      by (simp add: registered_def)
    with notl dl mu keep lu have li: "lease_invariant \<lparr>manager = m', leases = p # leases s\<rparr>"
      by (simp add: lease_invariant_def)
    have fr: "\<forall>q. marked_free m' q \<longrightarrow> marked_free ?m q"
      using new(3) by (auto simp: marked_free_def new_registry_fields)
    from notl mu li fr nr new show ?thesis by simp
  next
    case reuse
    let ?c' = "DescriptorPoolSetContainerVulkan_Reset (SetUsed FrameCount True c)"
    have pin: "(p, c) \<in> set (poolSets ?m)" using reuse(1) by simp
    have notl: "p \<notin> set (leases s)"
    proof
      assume "p \<in> set (leases s)"
      from lu [OF this] obtain c2 where "(p, c2) \<in> set (poolSets ?m)" "used c2"
        by (auto simp: marked_used_def)
      with same_address_same_registry [OF dist pin] reuse(2) show False by blast
    qed
    have mu: "marked_used m' p"
      using reuse(3) reset_registry_used [of FrameCount c] by (auto simp: marked_used_def)
    have keep: "marked_used m' q" if "marked_used ?m q" for q
    proof (cases "q = p")
      case True
      with mu show ?thesis by simp
    next
      case False
      with that reuse(1,3) show ?thesis by (auto simp: marked_used_def)
    qed
    have "map fst (poolSets m') = map fst (poolSets ?m)"
      using reuse(1,3) by simp
    with dist notl dl mu keep lu have li: "lease_invariant \<lparr>manager = m', leases = p # leases s\<rparr>"
      by (simp add: lease_invariant_def)
    have fr: "\<forall>q. marked_free m' q \<longrightarrow> marked_free ?m q"
      using reuse(1,3) reset_registry_used [of FrameCount c] by (auto simp: marked_free_def)
    have mf: "marked_free ?m p"
      using pin reuse(2) by (auto simp: marked_free_def)
    have "p \<in> registered ?m" using pin by (force simp: registered_def)
    with notl mu li fr mf show ?thesis by simp
  qed
  then show "p \<notin> set (leases s)"
    and "marked_used m' p"
    and "lease_invariant \<lparr>manager = m', leases = p # leases s\<rparr>"
    and "\<And>q. marked_free m' q \<Longrightarrow> marked_free (manager s) q"
    and "p \<in> registered (manager s) \<Longrightarrow> marked_free (manager s) p"
    and "p \<notin> registered (manager s) \<Longrightarrow> p = newPtr \<and>
           poolSets m' = poolSets (manager s) @ [(newPtr, DescriptorPoolSetContainerVulkan_new FrameCount)]"
    by blast+
qed

lemma Release_step:
  assumes inv: "lease_invariant s"
  shows "lease_invariant \<lparr>manager = ReleasePoolSet FrameCount p (manager s), leases = removeAll p (leases s)\<rparr>"
    and "\<And>q. marked_free (ReleasePoolSet FrameCount p (manager s)) q \<Longrightarrow> q = p \<or> marked_free (manager s) q"
proof -
  let ?m = "manager s" and ?m' = "ReleasePoolSet FrameCount p (manager s)"
  have ptrs: "map fst (poolSets ?m') = map fst (poolSets ?m)"
    by (simp add: ReleasePoolSet_def case_prod_beta)
  have keep: "(q, c) \<in> set (poolSets ?m') \<longleftrightarrow> (q, c) \<in> set (poolSets ?m)" if "q \<noteq> p" for q c
    using that by (force simp: ReleasePoolSet_def image_iff split: if_splits)
  from inv have "distinct (map fst (poolSets ?m))" "distinct (leases s)"
    "\<And>q. q \<in> set (leases s) \<Longrightarrow> marked_used ?m q"
    by (simp_all add: lease_invariant_def)
  with ptrs keep show "lease_invariant \<lparr>manager = ?m', leases = removeAll p (leases s)\<rparr>"
    by (auto simp: lease_invariant_def marked_used_def distinct_removeAll)
  show "\<And>q. marked_free ?m' q \<Longrightarrow> q = p \<or> marked_free ?m q"
    using keep by (auto simp: marked_free_def)
qed

lemma calls_invariant:
  "calls cs s = Some s' \<Longrightarrow> lease_invariant s \<Longrightarrow>
     lease_invariant s' \<and>
     (\<forall>q. marked_free (manager s') q \<longrightarrow> marked_free (manager s) q \<or> released_in q cs)"
proof (induction cs arbitrary: s)
  case Nil
  then show ?case by simp
next
  case (Cons c cs)
  from Cons.prems(1) obtain s1 where st: "call_step c s = Some s1" and rest: "calls cs s1 = Some s'"
    by (auto split: option.splits)
  have "lease_invariant s1 \<and> (\<forall>q. marked_free (manager s1) q \<longrightarrow> marked_free (manager s) q \<or> released_in q [c])"
  proof (cases c)
    case (Acquire FrameCount newPtr)
    with st obtain p m' where f: "fresh_for newPtr (manager s)"
      and a: "AcquirePoolSetContainer FrameCount newPtr (manager s) = (p, m')"
      and s1: "s1 = \<lparr>manager = m', leases = p # leases s\<rparr>"
      by (auto split: if_splits prod.splits)
    from Acquire_step(3,4) [OF Cons.prems(2) f a] s1 show ?thesis by auto
  next
    case (Release FrameCount p)
    with st have s1: "s1 = \<lparr>manager = ReleasePoolSet FrameCount p (manager s), leases = removeAll p (leases s)\<rparr>"
      by (auto split: if_splits)
    from Release_step [OF Cons.prems(2), of FrameCount p] s1 Release show ?thesis
      by (auto simp: released_in_def)
  qed
  moreover from this Cons.IH [OF rest] have "lease_invariant s'"
    and "\<forall>q. marked_free (manager s') q \<longrightarrow> marked_free (manager s1) q \<or> released_in q cs"
    by simp_all
  ultimately show ?case
    by (auto simp: released_in_def)
qed

lemma initial_clients_invariant:
  "lease_invariant initial_clients \<and> (\<forall>q. \<not> marked_free (manager initial_clients) q)"
  by (simp add: lease_invariant_def initial_clients_def DescriptorPoolsManagerVulkan_new_def marked_free_def)

text \<open>Claim C2. After every sequence of \<open>Acquire\<close> and \<open>Release\<close> calls on a new manager,
  the outstanding leases are pairwise different and all marked used, and the next
  \<open>Acquire\<close> returns a registry that is not leased at that moment and is marked used
  when it is returned: either a registry of the manager that was marked free, by a
  \<open>Release\<close> earlier in the sequence, or a brand-new registry added to the manager.\<close>

theorem Acquire_never_returns_a_leased_registry:
  assumes "calls cs initial_clients = Some s"
    and "fresh_for newPtr (manager s)"
    and "AcquirePoolSetContainer FrameCount newPtr (manager s) = (p, m')"
  shows "distinct (leases s)
       \<and> (\<forall>q\<in>set (leases s). marked_used (manager s) q)
       \<and> p \<notin> set (leases s)
       \<and> marked_used m' p
       \<and> (if p \<in> registered (manager s)
          then marked_free (manager s) p \<and> released_in p cs
          else p = newPtr \<and>
               poolSets m' =
                 poolSets (manager s) @ [(newPtr, DescriptorPoolSetContainerVulkan_new FrameCount)])"
proof -
  from calls_invariant [OF assms(1)] initial_clients_invariant
  have inv: "lease_invariant s" and hist: "\<And>q. marked_free (manager s) q \<Longrightarrow> released_in q cs"
    by blast+
  note st = Acquire_step [OF inv assms(2,3)]
  from inv have "distinct (leases s)" "\<forall>q\<in>set (leases s). marked_used (manager s) q"
    by (simp_all add: lease_invariant_def)
  moreover note st(1) st(2)
  moreover have "p \<in> registered (manager s) \<Longrightarrow> marked_free (manager s) p \<and> released_in p cs"
    using st(5) hist by blast
  moreover note st(6)
  ultimately show ?thesis by simp
qed


lemmas manager_defs = fresh_for_def registered_def IsUnused_def AcquirePoolSetContainer_def
  ReleasePoolSet_def DescriptorPoolSetContainerVulkan_new_def SetUsed_def
  DescriptorPoolSetContainerVulkan_Reset_def initial_clients_def
  DescriptorPoolsManagerVulkan_new_def

lemma example_calls_run:
  "calls example_calls initial_clients = Some (the (calls example_calls initial_clients))"
  by (simp add: example_calls_def manager_defs)

lemma example_calls_state:
  "leases (the (calls example_calls initial_clients)) = [101]"
  "map fst (poolSets (manager (the (calls example_calls initial_clients)))) = [100, 101]"
  "map (used \<circ> snd) (poolSets (manager (the (calls example_calls initial_clients)))) = [False, True]"
  by (simp_all add: example_calls_def manager_defs)

theorem Acquire_never_returns_a_leased_registry_witness:
  "leases (the (calls example_calls initial_clients)) = [101] \<and>
   fst (AcquirePoolSetContainer 3 102 (manager (the (calls example_calls initial_clients)))) = 100 \<and>
   marked_used (snd (AcquirePoolSetContainer 3 102 (manager (the (calls example_calls initial_clients))))) 100 \<and>
   released_in 100 example_calls"
proof -
  let ?s = "the (calls example_calls initial_clients)"
  let ?a = "AcquirePoolSetContainer 3 102 (manager ?s)"
  have f: "fresh_for 102 (manager ?s)"
    by (simp add: example_calls_def manager_defs)
  have a: "?a = (fst ?a, snd ?a)" by simp
  have p: "fst ?a = 100"
    by (simp add: example_calls_def manager_defs)
  have r: "100 \<in> registered (manager ?s)"
    using example_calls_state(2) by (simp add: registered_def image_set)
  from Acquire_never_returns_a_leased_registry [OF example_calls_run f a] p r
  show ?thesis
    by (simp add: example_calls_state)
qed

end
